theory Spec2Isabelle
  imports Main "HOL-Library.Word"
begin

unbundle bit_operations_syntax

section \<open>Constants, attribute macros and cells (vterm.h)\<close>

text \<open>
  The model follows the zero-copy variant of \<^verbatim>\<open>vterm.c\<close> (the first one in the
  source file) together with the header that declares its API, where the grid is
  37 rows of 128 columns.
\<close>

definition VTERM_COUNT :: int where "VTERM_COUNT = 4"
definition VTERM_COLS :: int where "VTERM_COLS = 128"
definition VTERM_ROWS :: int where "VTERM_ROWS = 37"

definition VTERM_BLACK :: "8 word" where "VTERM_BLACK = 0"
definition VTERM_RED :: "8 word" where "VTERM_RED = 1"
definition VTERM_WHITE :: "8 word" where "VTERM_WHITE = 7"
definition VTERM_BRIGHT :: "8 word" where "VTERM_BRIGHT = 8"

text \<open>\<^verbatim>\<open>#define VTERM_ATTR(fg, bg) (((bg) << 4) | ((fg) & 0x0F))\<close>, stored in a \<^verbatim>\<open>uint8_t\<close>.\<close>

definition VTERM_ATTR :: "8 word \<Rightarrow> 8 word \<Rightarrow> 8 word" where
  "VTERM_ATTR fg bg = push_bit 4 bg OR (fg AND 0x0F)"

definition VTERM_ATTR_FG :: "8 word \<Rightarrow> 8 word" where
  "VTERM_ATTR_FG a = a AND 0x0F"

definition VTERM_ATTR_BG :: "8 word \<Rightarrow> 8 word" where
  "VTERM_ATTR_BG a = drop_bit 4 a AND 0x0F"

definition VTERM_DEFAULT_ATTR :: "8 word" where
  "VTERM_DEFAULT_ATTR = VTERM_ATTR VTERM_WHITE VTERM_BLACK"

record vterm_cell_t =
  ch :: char
  attr :: "8 word"

definition blank_cell :: vterm_cell_t where
  "blank_cell = \<lparr>ch = CHR '' '', attr = VTERM_DEFAULT_ATTR\<rparr>"

section \<open>Machine integers and the C library\<close>

text \<open>
  A C \<^verbatim>\<open>int\<close> is modelled as an \<^typ>\<open>int\<close>; every assignment whose value can leave
  the 32-bit range is wrapped with \<open>wrap32\<close> (two's complement, what the target does
  on signed overflow).
\<close>

definition wrap32 :: "int \<Rightarrow> int" where
  "wrap32 x = (x + 2147483648) mod 4294967296 - 2147483648"

definition INT_MAX :: int where "INT_MAX = 2147483647"
definition INT_MIN :: int where "INT_MIN = - 2147483648"

text \<open>The byte value of a character, and C's truncating remainder.\<close>

definition ord :: "char \<Rightarrow> int" where
  "ord c = of_char c"

definition c_rem :: "int \<Rightarrow> int \<Rightarrow> int" where
  "c_rem a b = sgn a * (\<bar>a\<bar> mod \<bar>b\<bar>)"

definition is_digit :: "char \<Rightarrow> bool" where
  "is_digit c = (48 \<le> ord c \<and> ord c \<le> 57)"

definition is_alpha :: "char \<Rightarrow> bool" where
  "is_alpha c = ((65 \<le> ord c \<and> ord c \<le> 90) \<or> (97 \<le> ord c \<and> ord c \<le> 122))"

definition isspace :: "char \<Rightarrow> bool" where
  "isspace c = (ord c = 32 \<or> (9 \<le> ord c \<and> ord c \<le> 13))"

text \<open>A buffer read as a C string ends at its first NUL byte.\<close>

definition c_str :: "string \<Rightarrow> string" where
  "c_str s = takeWhile (\<lambda>c. c \<noteq> CHR 0x00) s"

text \<open>
  \<^verbatim>\<open>strtol\<close> in base 10 as the target's C library (newlib) performs it: leading white
  space, an optional sign, the longest run of digits, and a result saturated to the
  range of \<^verbatim>\<open>long\<close> (32 bits on the target). \<^verbatim>\<open>atoi\<close> is \<^verbatim>\<open>(int) strtol(s, NULL, 10)\<close>;
  the \<^verbatim>\<open>%d\<close> conversion of \<^verbatim>\<open>sscanf\<close> uses the same conversion but fails when no digit
  follows the sign.
\<close>

fun digits_val :: "int \<Rightarrow> string \<Rightarrow> int" where
  "digits_val acc [] = acc"
| "digits_val acc (c # cs) = digits_val (acc * 10 + (ord c - 48)) cs"

definition saturate :: "int \<Rightarrow> int" where
  "saturate v = (if v > INT_MAX then INT_MAX else if v < INT_MIN then INT_MIN else v)"

definition split_sign :: "string \<Rightarrow> bool \<times> string" where
  "split_sign s =
     (case s of
        [] \<Rightarrow> (False, [])
      | c # cs \<Rightarrow> if c = CHR ''-'' then (True, cs)
                  else if c = CHR ''+'' then (False, cs)
                  else (False, c # cs))"

definition scan_int :: "string \<Rightarrow> (int \<times> string) option" where
  "scan_int s =
     (let (neg, t) = split_sign (dropWhile isspace s);
          ds = takeWhile is_digit t;
          v = digits_val 0 ds
      in if ds = [] then None
         else Some (saturate (if neg then - v else v), dropWhile is_digit t))"

definition atoi :: "string \<Rightarrow> int" where
  "atoi s = (case scan_int s of None \<Rightarrow> 0 | Some (v, _) \<Rightarrow> v)"

text \<open>\<^verbatim>\<open>sscanf(buf, "%d;%d", &row, &col)\<close>: a variable keeps its old value when its
  conversion is not reached.\<close>

definition sscanf_d_d :: "string \<Rightarrow> int \<Rightarrow> int \<Rightarrow> int \<times> int" where
  "sscanf_d_d s row col =
     (case scan_int s of
        None \<Rightarrow> (row, col)
      | Some (r, rest) \<Rightarrow>
          (case rest of
             [] \<Rightarrow> (r, col)
           | c # rest' \<Rightarrow>
               if c = CHR '';'' then
                 (case scan_int rest' of None \<Rightarrow> (r, col) | Some (k, _) \<Rightarrow> (r, k))
               else (r, col)))"

text \<open>Decimal output of \<^verbatim>\<open>%d\<close> in \<^verbatim>\<open>snprintf\<close>.\<close>

definition digit_char :: "nat \<Rightarrow> char" where
  "digit_char d = ''0123456789'' ! d"

function dec_nat :: "nat \<Rightarrow> string" where
  "dec_nat n = (if n < 10 then [digit_char n] else dec_nat (n div 10) @ [digit_char (n mod 10)])"
  by pat_completeness auto
termination
  by (relation "measure id") auto

declare dec_nat.simps [simp del]

definition dec_int :: "int \<Rightarrow> string" where
  "dec_int i = (if i < 0 then CHR ''-'' # dec_nat (nat (- i)) else dec_nat (nat i))"

section \<open>One terminal\<close>

text \<open>
  The fields of \<^verbatim>\<open>vterm_t\<close> that hold the cursor, the attribute and the parser.
  \<open>escape_buf\<close> holds \<^verbatim>\<open>escape_buf[0 .. escape_len - 1]\<close>, so \<^verbatim>\<open>escape_len\<close> is its
  length.
\<close>

record session =
  cursor_x :: int
  cursor_y :: int
  current_attr :: "8 word"
  escape_state :: int
  escape_buf :: string
  dirty :: int

text \<open>
  A terminal as the functions that take a \<^verbatim>\<open>vterm_t *\<close> see it. \<open>cells\<close> is the array
  \<^verbatim>\<open>vt->cells\<close> points to, as a memory indexed by the cell offset from the start of
  the buffer; offsets \<open>0 .. VTERM_ROWS * VTERM_COLS - 1\<close> are the grid. \<open>sent\<close>
  collects, in order, the bytes handed to \<^verbatim>\<open>vterm_send_input(s_active_vt, _)\<close> by the
  cursor position report; the public operations deliver them to the active
  terminal's queue.
\<close>

record vterm = session +
  cells :: "int \<Rightarrow> vterm_cell_t"
  sent :: string

definition GRID :: int where
  "GRID = VTERM_ROWS * VTERM_COLS"

definition fill_range :: "(int \<Rightarrow> vterm_cell_t) \<Rightarrow> int \<Rightarrow> int \<Rightarrow> vterm_cell_t \<Rightarrow> (int \<Rightarrow> vterm_cell_t)" where
  "fill_range cs lo hi v = (\<lambda>i. if lo \<le> i \<and> i < hi then v else cs i)"

text \<open>\<^verbatim>\<open>memmove(&cs[dst], &cs[src], n cells)\<close>.\<close>

definition move_cells :: "(int \<Rightarrow> vterm_cell_t) \<Rightarrow> int \<Rightarrow> int \<Rightarrow> int \<Rightarrow> (int \<Rightarrow> vterm_cell_t)" where
  "move_cells cs dst src n = (\<lambda>i. if dst \<le> i \<and> i < dst + n then cs (i - dst + src) else cs i)"

definition vterm_scroll :: "vterm \<Rightarrow> vterm" where
  "vterm_scroll vt =
     vt\<lparr>cells := fill_range (move_cells (cells vt) 0 VTERM_COLS ((VTERM_ROWS - 1) * VTERM_COLS))
                    ((VTERM_ROWS - 1) * VTERM_COLS) ((VTERM_ROWS - 1) * VTERM_COLS + VTERM_COLS) blank_cell,
        cursor_y := VTERM_ROWS - 1\<rparr>"

text \<open>The three places that end a row: \<^verbatim>\<open>cursor_x = 0; cursor_y++; if (cursor_y >= VTERM_ROWS) vterm_scroll(vt);\<close>\<close>

definition next_row :: "vterm \<Rightarrow> vterm" where
  "next_row vt =
     (let vt1 = vt\<lparr>cursor_x := 0, cursor_y := wrap32 (cursor_y vt + 1)\<rparr>
      in if cursor_y vt1 \<ge> VTERM_ROWS then vterm_scroll vt1 else vt1)"

text \<open>The \<^verbatim>\<open>do ... while\<close> loop of the tab case; it returns the cells and \<^verbatim>\<open>cursor_x\<close>.\<close>

function tab_loop :: "(int \<Rightarrow> vterm_cell_t) \<Rightarrow> 8 word \<Rightarrow> int \<Rightarrow> int \<Rightarrow> (int \<Rightarrow> vterm_cell_t) \<times> int" where
  "tab_loop cs a p x =
     (let cs' = cs(p := \<lparr>ch = CHR '' '', attr = a\<rparr>);
          x' = wrap32 (x + 1)
      in if x' < VTERM_COLS \<and> c_rem x' 8 \<noteq> 0 then tab_loop cs' a (p + 1) x' else (cs', x'))"
  by pat_completeness auto


termination tab_loop
proof (relation "measure (\<lambda>(cs, a, p, x). nat (8 - x mod 8))", goal_cases)
  case 1
  show ?case by simp
next
  case (2 cs a p x cs' x')
  have rem_zero: "c_rem z 8 = 0 \<longleftrightarrow> z mod 8 = 0" for z
    unfolding c_rem_def
    by (auto simp: sgn_if zmod_zminus1_eq_if split: if_splits)
  have low: "(x + 1 + 2147483648) mod 4294967296 mod 8 = (x + 1 + 2147483648) mod 8"
    by (rule mod_mod_cancel) simp
  have "wrap32 (x + 1) mod 8
        = ((x + 1 + 2147483648) mod 4294967296 mod 8 - 2147483648 mod 8) mod 8"
    unfolding wrap32_def by (simp only: mod_diff_eq)
  also have "\<dots> = ((x + 1 + 2147483648) mod 8 - 2147483648 mod 8) mod 8"
    by (simp only: low)
  also have "\<dots> = (x + 1 + 2147483648 - 2147483648) mod 8"
    by (simp only: mod_diff_eq)
  also have "\<dots> = (x + 1) mod 8"
    by (simp only: add_diff_cancel_right')
  finally have wrapped: "wrap32 (x + 1) mod 8 = (x + 1) mod 8" .
  from 2 have nz: "x' mod 8 \<noteq> 0" and x': "x' mod 8 = (x + 1) mod 8"
    by (simp_all add: rem_zero wrapped)
  have split: "(x + 1) mod 8 = (x mod 8 + 1) mod 8"
    by (simp add: mod_add_left_eq)
  have range: "0 \<le> x mod 8" "x mod 8 < 8"
    by simp_all
  have "x mod 8 \<noteq> 7"
    using nz x' split by auto
  then have "x mod 8 + 1 < 8"
    using range by linarith
  then have "x' mod 8 = x mod 8 + 1"
    using x' split range by simp
  then have "nat (8 - x' mod 8) < nat (8 - x mod 8)"
    using range by linarith
  then show ?case by simp
qed

declare tab_loop.simps [simp del]

definition cell_index :: "vterm \<Rightarrow> int" where
  "cell_index vt = cursor_y vt * VTERM_COLS + cursor_x vt"

definition vterm_putchar_internal :: "vterm \<Rightarrow> char \<Rightarrow> vterm" where
  "vterm_putchar_internal vt c =
     (let cell = cell_index vt in
      if c = CHR 0x0A then next_row vt
      else if c = CHR 0x0D then vt\<lparr>cursor_x := 0\<rparr>
      else if c = CHR 0x08 then
        (if cursor_x vt > 0
         then vt\<lparr>cursor_x := cursor_x vt - 1,
                 cells := (cells vt)(cell - 1 := \<lparr>ch = CHR '' '', attr = current_attr vt\<rparr>)\<rparr>
         else vt)
      else if c = CHR 0x09 then
        (let (cs, x) = tab_loop (cells vt) (current_attr vt) cell (cursor_x vt);
             vt1 = vt\<lparr>cells := cs, cursor_x := x\<rparr>
         in if cursor_x vt1 \<ge> VTERM_COLS then next_row vt1 else vt1)
      else if 32 \<le> ord c \<and> ord c < 127 then
        (let vt1 = vt\<lparr>cells := (cells vt)(cell := \<lparr>ch = c, attr = current_attr vt\<rparr>),
                      cursor_x := wrap32 (cursor_x vt + 1)\<rparr>
         in if cursor_x vt1 \<ge> VTERM_COLS then next_row vt1 else vt1)
      else vt)"

text \<open>The word-wise fill of \<^verbatim>\<open>vterm_clear_internal\<close> stores a space and the default
  attribute in every cell of the grid.\<close>

definition vterm_clear_internal :: "vterm \<Rightarrow> vterm" where
  "vterm_clear_internal vt =
     vt\<lparr>cells := fill_range (cells vt) 0 (VTERM_ROWS * VTERM_COLS) blank_cell,
        cursor_x := 0, cursor_y := 0, current_attr := VTERM_DEFAULT_ATTR\<rparr>"

section \<open>SGR parameters\<close>

fun parse_digits :: "int \<Rightarrow> string \<Rightarrow> int \<times> string" where
  "parse_digits num [] = (num, [])"
| "parse_digits num (c # cs) =
     (if is_digit c then parse_digits (wrap32 (num * 10 + (ord c - 48))) cs else (num, c # cs))"

definition skip_semi :: "string \<Rightarrow> string" where
  "skip_semi p = (case p of [] \<Rightarrow> [] | c # cs \<Rightarrow> if c = CHR '';'' then cs else c # cs)"

definition sgr_parse_num :: "string \<Rightarrow> int \<times> string" where
  "sgr_parse_num p = (let (num, q) = parse_digits 0 p in (num, skip_semi q))"

text \<open>The sub-parameters of \<^verbatim>\<open>38\<close> and \<^verbatim>\<open>48\<close> are consumed and dropped.\<close>

definition sgr_skip_extended :: "string \<Rightarrow> string" where
  "sgr_skip_extended p =
     (let (mode, p1) = sgr_parse_num p in
      if mode = 5 then snd (sgr_parse_num p1)
      else if mode = 2 then snd (sgr_parse_num (snd (sgr_parse_num (snd (sgr_parse_num p1)))))
      else p1)"

text \<open>
  The \<^verbatim>\<open>while (*p)\<close> loop of \<^verbatim>\<open>vterm_apply_sgr\<close> over the rest of the parameter string,
  the local \<^verbatim>\<open>bright\<close> and the running attribute. \<^verbatim>\<open>sgr_parse_num\<close> consumes nothing
  when the next byte is neither a digit nor a semicolon, and the C loop then never
  ends: the result \<open>None\<close> stands for a call that does not return.
\<close>

partial_function (option) sgr_loop :: "string \<Rightarrow> int \<Rightarrow> 8 word \<Rightarrow> 8 word option" where
  "sgr_loop p bright a =
     (if p = [] then Some a
      else
        (let (num, p1) = sgr_parse_num p in
         if 90 \<le> num \<and> num \<le> 97 then
           sgr_loop p1 bright (VTERM_ATTR (word_of_int (num - 90) OR VTERM_BRIGHT) (VTERM_ATTR_BG a))
         else if 30 \<le> num \<and> num \<le> 37 then
           sgr_loop p1 bright (VTERM_ATTR (word_of_int ((num - 30) OR bright)) (VTERM_ATTR_BG a))
         else if num = 0 then sgr_loop p1 0 VTERM_DEFAULT_ATTR
         else if num = 1 then
           sgr_loop p1 8 (VTERM_ATTR (VTERM_ATTR_FG a OR VTERM_BRIGHT) (VTERM_ATTR_BG a))
         else if num = 22 then
           sgr_loop p1 0 (VTERM_ATTR (VTERM_ATTR_FG a AND 0x07) (VTERM_ATTR_BG a))
         else if num = 38 then sgr_loop (sgr_skip_extended p1) bright a
         else if num = 39 then sgr_loop p1 bright (VTERM_ATTR VTERM_WHITE (VTERM_ATTR_BG a))
         else if 40 \<le> num \<and> num \<le> 47 then
           sgr_loop p1 bright (VTERM_ATTR (VTERM_ATTR_FG a) (word_of_int (num - 40)))
         else if num = 48 then sgr_loop (sgr_skip_extended p1) bright a
         else if num = 49 then sgr_loop p1 bright (VTERM_ATTR (VTERM_ATTR_FG a) VTERM_BLACK)
         else if 100 \<le> num \<and> num \<le> 107 then
           sgr_loop p1 bright (VTERM_ATTR (VTERM_ATTR_FG a) (word_of_int (num - 100) OR VTERM_BRIGHT))
         else sgr_loop p1 bright a))"

text \<open>The reset test at the start of \<^verbatim>\<open>vterm_apply_sgr\<close>: an empty string or a leading
  \<^verbatim>\<open>0\<close> that is a whole parameter.\<close>

definition sgr_is_reset :: "string \<Rightarrow> bool" where
  "sgr_is_reset p =
     (case p of
        [] \<Rightarrow> True
      | c # cs \<Rightarrow> c = CHR ''0'' \<and> (case cs of [] \<Rightarrow> True | d # _ \<Rightarrow> d = CHR '';''))"

definition skip_zero :: "string \<Rightarrow> string" where
  "skip_zero p = (case p of [] \<Rightarrow> [] | c # cs \<Rightarrow> if c = CHR ''0'' then cs else c # cs)"

definition vterm_apply_sgr :: "vterm \<Rightarrow> string \<Rightarrow> vterm option" where
  "vterm_apply_sgr vt params =
     (let (a, p) = (if sgr_is_reset params
                    then (VTERM_DEFAULT_ATTR, skip_semi (skip_zero params))
                    else (current_attr vt, params))
      in map_option (\<lambda>a'. vt\<lparr>current_attr := a'\<rparr>) (sgr_loop p 0 a))"


section \<open>The escape-sequence interpreter\<close>

text \<open>\<^verbatim>\<open>int n = 1; if (vt->escape_buf[0]) n = atoi(vt->escape_buf); if (n < 1) n = 1;\<close>\<close>

definition csi_count :: "string \<Rightarrow> int" where
  "csi_count params =
     (let n = (if params \<noteq> [] then atoi params else 1) in if n < 1 then 1 else n)"

text \<open>The body of \<^verbatim>\<open>switch (c)\<close> for a complete CSI sequence with final byte \<open>c\<close>.\<close>

definition csi_final :: "vterm \<Rightarrow> char \<Rightarrow> string \<Rightarrow> vterm option" where
  "csi_final vt c params =
     (if c = CHR ''m'' then vterm_apply_sgr vt params
      else if c = CHR ''J'' then
        Some (if params = ''2'' \<or> params = [] then vterm_clear_internal vt else vt)
      else if c = CHR ''H'' \<or> c = CHR ''f'' then
        Some (if params = [] \<or> params = ''1;1'' then vt\<lparr>cursor_x := 0, cursor_y := 0\<rparr>
              else
                (let (row, col) = sscanf_d_d params 1 1;
                     y = (if row > 0 then row - 1 else 0);
                     x = (if col > 0 then col - 1 else 0)
                 in vt\<lparr>cursor_y := (if y \<ge> VTERM_ROWS then VTERM_ROWS - 1 else y),
                        cursor_x := (if x \<ge> VTERM_COLS then VTERM_COLS - 1 else x)\<rparr>))
      else if c = CHR ''A'' then
        Some (let y = wrap32 (cursor_y vt - csi_count params)
              in vt\<lparr>cursor_y := (if y < 0 then 0 else y)\<rparr>)
      else if c = CHR ''B'' then
        Some (let y = wrap32 (cursor_y vt + csi_count params)
              in vt\<lparr>cursor_y := (if y \<ge> VTERM_ROWS then VTERM_ROWS - 1 else y)\<rparr>)
      else if c = CHR ''C'' then
        Some (let x = wrap32 (cursor_x vt + csi_count params)
              in vt\<lparr>cursor_x := (if x \<ge> VTERM_COLS then VTERM_COLS - 1 else x)\<rparr>)
      else if c = CHR ''D'' then
        Some (let x = wrap32 (cursor_x vt - csi_count params)
              in vt\<lparr>cursor_x := (if x < 0 then 0 else x)\<rparr>)
      else if c = CHR ''K'' then
        Some (let mode = (if params \<noteq> [] then atoi params else 0);
                  start = (if mode = 0 then cursor_x vt else 0);
                  end = (if mode = 0 then VTERM_COLS
                         else if mode = 1 then wrap32 (cursor_x vt + 1) else VTERM_COLS);
                  row = cursor_y vt * VTERM_COLS
              in vt\<lparr>cells := fill_range (cells vt) (row + start) (row + end)
                                  \<lparr>ch = CHR '' '', attr = current_attr vt\<rparr>\<rparr>)
      else if c = CHR ''X'' then
        Some (let e = wrap32 (cursor_x vt + csi_count params);
                  end = (if e > VTERM_COLS then VTERM_COLS else e);
                  row = cursor_y vt * VTERM_COLS
              in vt\<lparr>cells := fill_range (cells vt) (row + cursor_x vt) (row + end)
                                  \<lparr>ch = CHR '' '', attr = current_attr vt\<rparr>\<rparr>)
      else if c = CHR ''L'' then
        Some (let n0 = csi_count params;
                  room = wrap32 (VTERM_ROWS - cursor_y vt);
                  n = (if n0 > room then room else n0);
                  lines_to_move = wrap32 (room - n);
                  moved = (if lines_to_move > 0
                           then move_cells (cells vt) ((cursor_y vt + n) * VTERM_COLS)
                                  (cursor_y vt * VTERM_COLS) (lines_to_move * VTERM_COLS)
                           else cells vt)
              in vt\<lparr>cells := fill_range moved (cursor_y vt * VTERM_COLS)
                                  ((cursor_y vt + n) * VTERM_COLS) blank_cell\<rparr>)
      else if c = CHR ''M'' then
        Some (let n0 = csi_count params;
                  room = wrap32 (VTERM_ROWS - cursor_y vt);
                  n = (if n0 > room then room else n0);
                  lines_to_move = wrap32 (room - n);
                  moved = (if lines_to_move > 0
                           then move_cells (cells vt) (cursor_y vt * VTERM_COLS)
                                  ((cursor_y vt + n) * VTERM_COLS) (lines_to_move * VTERM_COLS)
                           else cells vt)
              in vt\<lparr>cells := fill_range moved ((VTERM_ROWS - n) * VTERM_COLS)
                                  (VTERM_ROWS * VTERM_COLS) blank_cell\<rparr>)
      else if c = CHR ''n'' then
        Some (if params = ''6''
              then vt\<lparr>sent := sent vt @ [CHR 0x1B, CHR ''[''] @ dec_int (wrap32 (cursor_y vt + 1))
                                  @ '';'' @ dec_int (wrap32 (cursor_x vt + 1)) @ ''R''\<rparr>
              else vt)
      else Some vt)"

text \<open>
  \<^verbatim>\<open>vterm_handle_escape\<close> returns 1 when it consumed the byte and 0 when the byte is
  to be printed. The result is \<open>None\<close> when the SGR loop does not return.
\<close>

definition vterm_handle_escape :: "vterm \<Rightarrow> char \<Rightarrow> (int \<times> vterm) option" where
  "vterm_handle_escape vt c =
     (if escape_state vt = 0 then
        (if c = CHR 0x1B then Some (1, vt\<lparr>escape_state := 1, escape_buf := []\<rparr>)
         else Some (0, vt))
      else if escape_state vt = 1 then
        (if c = CHR ''['' then Some (1, vt\<lparr>escape_state := 2\<rparr>)
         else if c = CHR ''D'' then
           Some (1, (if cursor_y vt \<ge> VTERM_ROWS - 1 then vterm_scroll vt
                     else vt\<lparr>cursor_y := wrap32 (cursor_y vt + 1)\<rparr>)\<lparr>dirty := 1, escape_state := 0\<rparr>)
         else if c = CHR ''M'' then
           Some (1, (if cursor_y vt \<le> 0
                     then vt\<lparr>cells := fill_range
                                 (move_cells (cells vt) VTERM_COLS 0 ((VTERM_ROWS - 1) * VTERM_COLS))
                                 0 VTERM_COLS blank_cell\<rparr>
                     else vt\<lparr>cursor_y := cursor_y vt - 1\<rparr>)\<lparr>dirty := 1, escape_state := 0\<rparr>)
         else if c = CHR ''E'' then
           Some (1, (let vt1 = vt\<lparr>cursor_x := 0\<rparr>
                     in if cursor_y vt1 \<ge> VTERM_ROWS - 1 then vterm_scroll vt1
                        else vt1\<lparr>cursor_y := wrap32 (cursor_y vt1 + 1)\<rparr>)\<lparr>dirty := 1, escape_state := 0\<rparr>)
         else Some (0, vt\<lparr>escape_state := 0\<rparr>))
      else
        (let buf = (if int (length (escape_buf vt)) < 31 then escape_buf vt @ [c] else escape_buf vt)
         in if is_alpha c then
              (let params = c_str (butlast buf) in
               if params \<noteq> [] \<and> hd params = CHR ''?''
               then Some (1, vt\<lparr>escape_state := 0, escape_buf := []\<rparr>)
               else map_option (\<lambda>vt'. (1, vt'\<lparr>escape_state := 0, escape_buf := []\<rparr>))
                      (csi_final vt c params))
            else Some (1, vt\<lparr>escape_buf := buf\<rparr>)))"

section \<open>Writing to one terminal\<close>

text \<open>Handling one byte:
  \<^verbatim>\<open>if (!vterm_handle_escape(vt, c)) vterm_putchar_internal(vt, c);\<close>\<close>

definition byte_step :: "vterm \<Rightarrow> char \<Rightarrow> vterm option" where
  "byte_step vt c =
     (case vterm_handle_escape vt c of
        None \<Rightarrow> None
      | Some (h, vt1) \<Rightarrow> Some (if h = 0 then vterm_putchar_internal vt1 c else vt1))"

text \<open>The part of \<^verbatim>\<open>vterm_putchar\<close> that runs under the terminal's mutex.\<close>

definition putchar_locked :: "vterm \<Rightarrow> char \<Rightarrow> vterm option" where
  "putchar_locked vt c = map_option (\<lambda>v. v\<lparr>dirty := 1\<rparr>) (byte_step vt c)"

text \<open>One \<^verbatim>\<open>vterm_putchar\<close> call for each byte, in order.\<close>

fun putchars :: "vterm \<Rightarrow> string \<Rightarrow> vterm option" where
  "putchars vt [] = Some vt"
| "putchars vt (c # cs) =
     (case putchar_locked vt c of None \<Rightarrow> None | Some vt1 \<Rightarrow> putchars vt1 cs)"

text \<open>
  The locals of \<^verbatim>\<open>vterm_write\<close>: the cached cursor, attribute and parser state, and
  the two cell pointers as offsets from \<^verbatim>\<open>cells_base\<close>.
\<close>

record write_locals =
  cx :: int
  cy :: int
  attr_cache :: "8 word"
  escape_mode :: int
  cursor_ptr :: int
  row_end :: int

text \<open>\<^verbatim>\<open>cursor_ptr = &cells_base[cy * VTERM_COLS + cx]; row_end = &cells_base[cy * VTERM_COLS + VTERM_COLS];\<close>\<close>

definition rederive :: "write_locals \<Rightarrow> write_locals" where
  "rederive l = l\<lparr>cursor_ptr := cy l * VTERM_COLS + cx l,
                  row_end := cy l * VTERM_COLS + VTERM_COLS\<rparr>"

text \<open>Storing the cached state back:
  \<^verbatim>\<open>vt->cursor_x = cx; vt->cursor_y = cy; vt->current_attr = current_attr; vt->escape_state = escape_mode;\<close>\<close>

definition flush_locals :: "vterm \<Rightarrow> write_locals \<Rightarrow> vterm" where
  "flush_locals vt l =
     vt\<lparr>cursor_x := cx l, cursor_y := cy l, current_attr := attr_cache l,
        escape_state := escape_mode l\<rparr>"

text \<open>What the slow path reads back after the byte has been handled; the pointers are
  derived again only when the cursor has moved.\<close>

definition reload_locals :: "write_locals \<Rightarrow> vterm \<Rightarrow> write_locals" where
  "reload_locals l vt =
     (let l1 = l\<lparr>escape_mode := escape_state vt, attr_cache := current_attr vt\<rparr>
      in if cursor_x vt \<noteq> cx l1 \<or> cursor_y vt \<noteq> cy l1
         then rederive (l1\<lparr>cx := cursor_x vt, cy := cursor_y vt\<rparr>)
         else l1)"

fun write_loop :: "vterm \<Rightarrow> write_locals \<Rightarrow> string \<Rightarrow> (vterm \<times> write_locals) option" where
  "write_loop vt l [] = Some (vt, l)"
| "write_loop vt l (c # cs) =
     (if escape_mode l = 0 \<and> 32 \<le> ord c \<and> ord c < 127 then
        (let vt1 = vt\<lparr>cells := (cells vt)(cursor_ptr l := \<lparr>ch = c, attr = attr_cache l\<rparr>)\<rparr>;
             l1 = l\<lparr>cursor_ptr := cursor_ptr l + 1, cx := wrap32 (cx l + 1)\<rparr>
         in if cursor_ptr l1 \<ge> row_end l1 then
              (let l2 = l1\<lparr>cx := 0, cy := wrap32 (cy l1 + 1)\<rparr>
               in if cy l2 \<ge> VTERM_ROWS then
                    (let vt2 = vterm_scroll (vt1\<lparr>cursor_x := cx l2, cursor_y := cy l2\<rparr>)
                     in write_loop vt2 (rederive (l2\<lparr>cy := cursor_y vt2\<rparr>)) cs)
                  else write_loop vt1 (l2\<lparr>row_end := row_end l2 + VTERM_COLS\<rparr>) cs)
            else write_loop vt1 l1 cs)
      else
        (case byte_step (flush_locals vt l) c of
           None \<Rightarrow> None
         | Some vt3 \<Rightarrow> write_loop vt3 (reload_locals l vt3) cs))"

text \<open>The part of \<^verbatim>\<open>vterm_write\<close> that runs under the terminal's mutex.\<close>

definition write_locked :: "vterm \<Rightarrow> string \<Rightarrow> vterm option" where
  "write_locked vt data =
     (let l = rederive \<lparr>cx = cursor_x vt, cy = cursor_y vt, attr_cache = current_attr vt,
                        escape_mode = escape_state vt, cursor_ptr = 0, row_end = 0\<rparr>
      in map_option (\<lambda>(vt1, l1). (flush_locals vt1 l1)\<lparr>dirty := 1\<rparr>) (write_loop vt l data))"

section \<open>The terminal pool and the two memory tiers\<close>

text \<open>Where the \<^verbatim>\<open>cells\<close> pointer of a \<^verbatim>\<open>vterm_t\<close> points: at \<^verbatim>\<open>s_iram_buffer\<close> or at
  the terminal's own \<^verbatim>\<open>storage_cells\<close>.\<close>

datatype cells_ptr = IRAM | STORAGE

record vterm_t = session +
  cells_at :: cells_ptr
  storage_cells :: "int \<Rightarrow> vterm_cell_t"
  input_queue :: string

text \<open>
  The globals of \<^verbatim>\<open>vterm.c\<close>. A callback is a flag (registered or \<^verbatim>\<open>NULL\<close>) and the
  list of arguments it has been called with, oldest first. \<open>s_esc_buf\<close> holds
  \<^verbatim>\<open>s_esc_buf[0 .. s_esc_len - 1]\<close>.
\<close>

record vtsys =
  s_iram_buffer :: "int \<Rightarrow> vterm_cell_t"
  s_vterms :: "vterm_t list"
  s_active_vt :: int
  s_on_switch_cb :: bool
  s_on_render_cb :: bool
  switch_calls :: "int list"
  render_calls :: "int list"
  s_esc_buf :: string
  s_esc_start :: "32 word"

definition INPUT_QUEUE_SIZE :: nat where "INPUT_QUEUE_SIZE = 64"

text \<open>\<^verbatim>\<open>xQueueSend(q, &c, 0)\<close>: the byte is dropped when the queue is full.\<close>

definition xQueueSend :: "string \<Rightarrow> char \<Rightarrow> string" where
  "xQueueSend q c = (if length q < INPUT_QUEUE_SIZE then q @ [c] else q)"

definition valid_vt :: "int \<Rightarrow> bool" where
  "valid_vt vt_id = (0 \<le> vt_id \<and> vt_id < VTERM_COUNT)"

definition vterm_send_input :: "vtsys \<Rightarrow> int \<Rightarrow> char \<Rightarrow> vtsys" where
  "vterm_send_input sys vt_id c =
     (if valid_vt vt_id
      then (let t = s_vterms sys ! nat vt_id
            in sys\<lparr>s_vterms := (s_vterms sys)[nat vt_id := t\<lparr>input_queue := xQueueSend (input_queue t) c\<rparr>]\<rparr>)
      else sys)"

text \<open>Reading a terminal through its \<^verbatim>\<open>cells\<close> pointer, and writing the result of an
  operation back through it.\<close>

definition deref_cells :: "vtsys \<Rightarrow> vterm_t \<Rightarrow> (int \<Rightarrow> vterm_cell_t)" where
  "deref_cells sys t = (case cells_at t of IRAM \<Rightarrow> s_iram_buffer sys | STORAGE \<Rightarrow> storage_cells t)"

definition load_vt :: "vtsys \<Rightarrow> int \<Rightarrow> vterm" where
  "load_vt sys vt_id =
     (let t = s_vterms sys ! nat vt_id
      in \<lparr>cursor_x = cursor_x t, cursor_y = cursor_y t, current_attr = current_attr t,
          escape_state = escape_state t, escape_buf = escape_buf t, dirty = dirty t,
          cells = deref_cells sys t, sent = []\<rparr>)"

definition store_vt :: "vtsys \<Rightarrow> int \<Rightarrow> vterm \<Rightarrow> vtsys" where
  "store_vt sys vt_id v =
     (let t = s_vterms sys ! nat vt_id;
          t1 = t\<lparr>cursor_x := cursor_x v, cursor_y := cursor_y v, current_attr := current_attr v,
                 escape_state := escape_state v, escape_buf := escape_buf v, dirty := dirty v\<rparr>;
          sys1 = (case cells_at t of
                    IRAM \<Rightarrow> sys\<lparr>s_iram_buffer := cells v, s_vterms := (s_vterms sys)[nat vt_id := t1]\<rparr>
                  | STORAGE \<Rightarrow> sys\<lparr>s_vterms := (s_vterms sys)[nat vt_id := t1\<lparr>storage_cells := cells v\<rparr>]\<rparr>)
      in foldl (\<lambda>s c. vterm_send_input s (s_active_vt s) c) sys1 (sent v))"

definition blank_session :: "(int \<Rightarrow> vterm_cell_t) \<Rightarrow> vterm_t" where
  "blank_session mem =
     \<lparr>cursor_x = 0, cursor_y = 0, current_attr = VTERM_DEFAULT_ATTR, escape_state = 0,
      escape_buf = [], dirty = 0, cells_at = STORAGE,
      storage_cells = fill_range mem 0 (VTERM_ROWS * VTERM_COLS) blank_cell, input_queue = []\<rparr>"

text \<open>
  The state \<^verbatim>\<open>vterm_init\<close> leaves when every allocation succeeds (it returns
  \<^verbatim>\<open>ESP_ERR_NO_MEM\<close> otherwise); \<open>mem\<close> is what the allocated memory holds beyond the
  grid. The callbacks and the hotkey buffer are the static initialisers.
\<close>

definition vterm_init :: "(int \<Rightarrow> vterm_cell_t) \<Rightarrow> vtsys" where
  "vterm_init mem =
     \<lparr>s_iram_buffer = fill_range mem 0 (VTERM_ROWS * VTERM_COLS) blank_cell,
      s_vterms = [(blank_session mem)\<lparr>cells_at := IRAM\<rparr>, blank_session mem,
                  blank_session mem, blank_session mem],
      s_active_vt = 0, s_on_switch_cb = False, s_on_render_cb = False,
      switch_calls = [], render_calls = [], s_esc_buf = [], s_esc_start = 0\<rparr>"

text \<open>\<^verbatim>\<open>memcpy(dst, src, BUFFER_SIZE_BYTES)\<close>: the cells of the grid are copied.\<close>

definition copy_grid :: "(int \<Rightarrow> vterm_cell_t) \<Rightarrow> (int \<Rightarrow> vterm_cell_t) \<Rightarrow> (int \<Rightarrow> vterm_cell_t)" where
  "copy_grid dst src = (\<lambda>i. if 0 \<le> i \<and> i < VTERM_ROWS * VTERM_COLS then src i else dst i)"

definition vterm_switch :: "vtsys \<Rightarrow> int \<Rightarrow> vtsys" where
  "vterm_switch sys vt_id =
     (if vt_id < 0 \<or> vt_id \<ge> VTERM_COUNT then sys
      else if vt_id = s_active_vt sys then sys
      else
        (let old_i = nat (s_active_vt sys); new_i = nat vt_id;
             old_vt = s_vterms sys ! old_i;
             old_vt1 = old_vt\<lparr>storage_cells := copy_grid (storage_cells old_vt) (s_iram_buffer sys),
                             cells_at := STORAGE\<rparr>;
             vts1 = (s_vterms sys)[old_i := old_vt1];
             new_vt = vts1 ! new_i;
             iram1 = copy_grid (s_iram_buffer sys) (storage_cells new_vt);
             vts2 = vts1[new_i := new_vt\<lparr>cells_at := IRAM\<rparr>];
             sys1 = sys\<lparr>s_iram_buffer := iram1, s_vterms := vts2, s_active_vt := vt_id\<rparr>
         in if s_on_switch_cb sys1
            then sys1\<lparr>switch_calls := switch_calls sys1 @ [vt_id]\<rparr> else sys1))"

definition vterm_putchar :: "vtsys \<Rightarrow> int \<Rightarrow> char \<Rightarrow> vtsys option" where
  "vterm_putchar sys vt_id c =
     (if vt_id < 0 \<or> vt_id \<ge> VTERM_COUNT then Some sys
      else map_option (store_vt sys vt_id) (putchar_locked (load_vt sys vt_id) c))"

definition vterm_write :: "vtsys \<Rightarrow> int \<Rightarrow> string \<Rightarrow> vtsys option" where
  "vterm_write sys vt_id data =
     (if vt_id < 0 \<or> vt_id \<ge> VTERM_COUNT then Some sys
      else map_option (store_vt sys vt_id) (write_locked (load_vt sys vt_id) data))"

definition vterm_clear :: "vtsys \<Rightarrow> int \<Rightarrow> vtsys" where
  "vterm_clear sys vt_id =
     (if vt_id < 0 \<or> vt_id \<ge> VTERM_COUNT then sys
      else store_vt sys vt_id (vterm_clear_internal (load_vt sys vt_id)))"

definition vterm_set_switch_callback :: "vtsys \<Rightarrow> bool \<Rightarrow> vtsys" where
  "vterm_set_switch_callback sys cb = sys\<lparr>s_on_switch_cb := cb\<rparr>"

definition vterm_set_render_callback :: "vtsys \<Rightarrow> bool \<Rightarrow> vtsys" where
  "vterm_set_render_callback sys cb = sys\<lparr>s_on_render_cb := cb\<rparr>"

section \<open>The hotkey detector\<close>

definition flush_input_buffer :: "vtsys \<Rightarrow> vtsys" where
  "flush_input_buffer sys =
     (foldl (\<lambda>s c. vterm_send_input s (s_active_vt s) c) sys (s_esc_buf sys))\<lparr>s_esc_buf := []\<rparr>"

definition fkey_letter :: "char \<Rightarrow> int option" where
  "fkey_letter c =
     (if c = CHR ''P'' then Some 0 else if c = CHR ''Q'' then Some 1
      else if c = CHR ''R'' then Some 2 else if c = CHR ''S'' then Some 3 else None)"

text \<open>The three blocks of \<^verbatim>\<open>match_vt_hotkey\<close>; each one returns a terminal number or
  falls through to the next.\<close>

definition match_ss3 :: "string \<Rightarrow> int option" where
  "match_ss3 b =
     (if length b \<ge> 3 \<and> b ! 1 = CHR ''O'' then
        (case fkey_letter (b ! 2) of
           Some k \<Rightarrow> Some k
         | None \<Rightarrow> if length b \<ge> 4 \<and> b ! 2 = CHR ''5'' then fkey_letter (b ! 3) else None)
      else None)"

definition match_xterm :: "string \<Rightarrow> int option" where
  "match_xterm b =
     (if length b = 6 \<and> b ! 2 = CHR ''1'' \<and> b ! 3 = CHR '';'' \<and> b ! 4 = CHR ''5''
      then fkey_letter (b ! 5) else None)"

definition match_tilde :: "string \<Rightarrow> int option" where
  "match_tilde b =
     (if last b = CHR ''~'' then
        (let (num, p) = parse_digits 0 (drop 2 b) in
         if 11 \<le> num \<and> num \<le> 14 then Some (num - 11) else None)
      else None)"

definition match_csi_u :: "string \<Rightarrow> int option" where
  "match_csi_u b =
     (if last b = CHR ''u'' then
        (let (codepoint, p) = parse_digits 0 (drop 2 b);
             modifier = (case p of [] \<Rightarrow> 0
                         | c # q \<Rightarrow> if c = CHR '';'' then fst (parse_digits 0 q) else 0)
         in if modifier = 5 \<and> 49 \<le> codepoint \<and> codepoint \<le> 52 then Some (codepoint - 49) else None)
      else None)"

definition match_vt_hotkey :: "string \<Rightarrow> int" where
  "match_vt_hotkey b =
     (if length b < 2 then - 1
      else if b ! 0 \<noteq> CHR 0x1B then - 1
      else
        (case match_ss3 b of
           Some k \<Rightarrow> k
         | None \<Rightarrow>
             if length b \<ge> 3 \<and> b ! 1 = CHR ''['' then
               (case match_xterm b of
                  Some k \<Rightarrow> k
                | None \<Rightarrow>
                    (case match_tilde b of
                       Some k \<Rightarrow> k
                     | None \<Rightarrow> (case match_csi_u b of Some k \<Rightarrow> k | None \<Rightarrow> - 1)))
             else - 1))"

definition could_be_hotkey :: "string \<Rightarrow> bool" where
  "could_be_hotkey b =
     (if length b = 0 then False
      else if b ! 0 \<noteq> CHR 0x1B then False
      else if length b = 1 then True
      else
        (let c1 = b ! 1 in
         if c1 = CHR ''O'' \<or> c1 = CHR ''['' then
           (if length b > 10 then False
            else if length b \<ge> 3 \<and>
                    (let l = last b in
                     l = CHR ''~'' \<or> l = CHR ''u'' \<or> (65 \<le> ord l \<and> ord l \<le> 90) \<or>
                     (c1 = CHR ''O'' \<and> length b \<ge> 3 \<and> 80 \<le> ord l \<and> ord l \<le> 83))
            then False
            else True)
         else False))"

text \<open>\<^verbatim>\<open>pdMS_TO_TICKS(ms)\<close> for a tick rate of \<open>hz\<close> (\<^verbatim>\<open>configTICK_RATE_HZ\<close>, a build setting).\<close>

definition pdMS_TO_TICKS :: "32 word \<Rightarrow> 32 word \<Rightarrow> 32 word" where
  "pdMS_TO_TICKS hz ms = (ms * hz) div 1000"

text \<open>
  \<^verbatim>\<open>vterm_input_feed(c)\<close>, called when \<^verbatim>\<open>xTaskGetTickCount()\<close> reads \<open>now\<close>. The result is
  the return value and the new state.
\<close>

definition vterm_input_feed :: "32 word \<Rightarrow> vtsys \<Rightarrow> 32 word \<Rightarrow> char \<Rightarrow> int \<times> vtsys" where
  "vterm_input_feed hz sys now c =
     (let sys1 = (if length (s_esc_buf sys) > 0 \<and> now - s_esc_start sys > pdMS_TO_TICKS hz 20
                  then flush_input_buffer sys else sys)
      in if length (s_esc_buf sys1) = 0 \<and> c = CHR 0x1B then
           (0, sys1\<lparr>s_esc_buf := [c], s_esc_start := now\<rparr>)
         else if length (s_esc_buf sys1) > 0 then
           (let b = (if length (s_esc_buf sys1) < 15 then s_esc_buf sys1 @ [c] else s_esc_buf sys1);
                sys2 = sys1\<lparr>s_esc_buf := b\<rparr>;
                vt = match_vt_hotkey b
            in if vt \<ge> 0 then (1, vterm_switch (sys2\<lparr>s_esc_buf := []\<rparr>) vt)
               else if could_be_hotkey b then (0, sys2)
               else (0, flush_input_buffer sys2))
         else (0, vterm_send_input sys1 (s_active_vt sys1) c))"

text \<open>Feeding a list of bytes, each with the tick count at which it arrives; the
  return values are collected in order.\<close>

fun feed_all :: "32 word \<Rightarrow> vtsys \<Rightarrow> (32 word \<times> char) list \<Rightarrow> int list \<times> vtsys" where
  "feed_all hz sys [] = ([], sys)"
| "feed_all hz sys ((now, c) # rest) =
     (let (r, sys1) = vterm_input_feed hz sys now c;
          (rs, sys2) = feed_all hz sys1 rest
      in (r # rs, sys2))"


section \<open>Notions used by the properties\<close>

text \<open>The cursor invariant of a terminal.\<close>

definition cursor_ok :: "'a session_scheme \<Rightarrow> bool" where
  "cursor_ok vt =
     (0 \<le> cursor_x vt \<and> cursor_x vt < VTERM_COLS \<and> 0 \<le> cursor_y vt \<and> cursor_y vt < VTERM_ROWS)"

definition printable :: "char \<Rightarrow> bool" where
  "printable c = (32 \<le> ord c \<and> ord c < 127)"

text \<open>Memory that holds a blank in every cell, for concrete examples.\<close>

definition blank_mem :: "int \<Rightarrow> vterm_cell_t" where
  "blank_mem = (\<lambda>_. blank_cell)"

text \<open>
  The unbounded page that a run of characters describes: the characters \<open>data\<close> with
  attribute \<open>a\<close> laid out row by row from offset \<open>p\<close>, the old cells of the grid
  elsewhere, and blank rows below the grid.
\<close>

definition page :: "(int \<Rightarrow> vterm_cell_t) \<Rightarrow> int \<Rightarrow> 8 word \<Rightarrow> string \<Rightarrow> int \<Rightarrow> vterm_cell_t" where
  "page old p a data j =
     (if p \<le> j \<and> j < p + int (length data) then \<lparr>ch = data ! nat (j - p), attr = a\<rparr>
      else if j < GRID then old j else blank_cell)"

text \<open>The grid shows the page from row \<open>s\<close> on.\<close>

definition shown :: "vterm \<Rightarrow> string \<Rightarrow> int \<Rightarrow> (int \<Rightarrow> vterm_cell_t)" where
  "shown vt data s =
     (\<lambda>i. if 0 \<le> i \<and> i < GRID
          then page (cells vt) (cell_index vt) (current_attr vt) data (i + s * VTERM_COLS)
          else cells vt i)"

text \<open>The number of rows scrolled off once \<open>n\<close> characters have been placed from offset
  \<open>p\<close>: the cursor, at page offset \<open>p + n\<close>, is kept within the last row of the grid.\<close>

definition scrolled :: "int \<Rightarrow> int \<Rightarrow> int" where
  "scrolled p n = max 0 ((p + n) div VTERM_COLS - (VTERM_ROWS - 1))"

definition typed :: "vterm \<Rightarrow> string \<Rightarrow> vterm" where
  "typed vt data =
     (let p = cell_index vt; n = int (length data); s = scrolled p n
      in vt\<lparr>cells := shown vt data s,
            cursor_x := (p + n) mod VTERM_COLS,
            cursor_y := (p + n) div VTERM_COLS - s,
            dirty := (if data = [] then dirty vt else 1)\<rparr>)"


text \<open>A terminal with its \<^verbatim>\<open>dirty\<close> flag put aside.\<close>

definition undirty :: "vterm \<Rightarrow> vterm" where
  "undirty v = v\<lparr>dirty := 0\<rparr>"

text \<open>The cursor invariant holds before each byte of \<open>data\<close> is processed, one
  \<^verbatim>\<open>vterm_putchar\<close> at a time.\<close>

fun safe_run :: "vterm \<Rightarrow> string \<Rightarrow> bool" where
  "safe_run vt [] = True"
| "safe_run vt (c # cs) =
     (cursor_ok vt \<and> (case putchar_locked vt c of None \<Rightarrow> True | Some v \<Rightarrow> safe_run v cs))"

text \<open>The two cached pointers agree with the cached cursor.\<close>

definition locals_ok :: "write_locals \<Rightarrow> bool" where
  "locals_ok l =
     (cursor_ptr l = cy l * VTERM_COLS + cx l \<and> row_end l = cy l * VTERM_COLS + VTERM_COLS)"

text \<open>The cells after \<^verbatim>\<open>vterm_scroll\<close>.\<close>

definition scroll_cells :: "(int \<Rightarrow> vterm_cell_t) \<Rightarrow> (int \<Rightarrow> vterm_cell_t)" where
  "scroll_cells cs =
     fill_range (move_cells cs 0 VTERM_COLS ((VTERM_ROWS - 1) * VTERM_COLS))
       ((VTERM_ROWS - 1) * VTERM_COLS) ((VTERM_ROWS - 1) * VTERM_COLS + VTERM_COLS) blank_cell"

text \<open>A cleared terminal with nothing pending, for concrete examples.\<close>

definition fresh_vt :: vterm where
  "fresh_vt =
     \<lparr>cursor_x = 0, cursor_y = 0, current_attr = VTERM_DEFAULT_ATTR, escape_state = 0,
      escape_buf = [], dirty = 0, cells = blank_mem, sent = []\<rparr>"

text \<open>What the claims compare of a terminal: the cells, the cursor, the current
  attribute and the state of the escape parser, together with the bytes the terminal
  has sent.\<close>

definition vt_view ::
    "vterm \<Rightarrow> (int \<Rightarrow> vterm_cell_t) \<times> int \<times> int \<times> 8 word \<times> int \<times> string \<times> string" where
  "vt_view v =
     (cells v, cursor_x v, cursor_y v, current_attr v, escape_state v, escape_buf v, sent v)"

text \<open>The SGR sequence \<^verbatim>\<open>ESC [ params m\<close>.\<close>

definition sgr :: "string \<Rightarrow> string" where
  "sgr params = CHR 0x1B # CHR ''['' # params @ ''m''"

text \<open>A terminal in which a complete CSI sequence has just set the attribute \<open>a\<close>.\<close>

definition sgr_done :: "vterm \<Rightarrow> 8 word \<Rightarrow> vterm" where
  "sgr_done vt a = vt\<lparr>current_attr := a, escape_state := 0, escape_buf := [], dirty := 1\<rparr>"

text \<open>
  Where a character written at the cursor is found afterwards: in the cursor's cell,
  or one row higher when the write filled the bottom-right cell and so scrolled the
  grid.
\<close>

definition landing :: "vterm \<Rightarrow> int" where
  "landing vt =
     (if cursor_x vt = VTERM_COLS - 1 \<and> cursor_y vt = VTERM_ROWS - 1
      then cell_index vt - VTERM_COLS else cell_index vt)"

text \<open>The cell at offset \<open>i\<close> and the current attribute of a result.\<close>

definition cell_and_attr :: "vterm option \<Rightarrow> int \<Rightarrow> (vterm_cell_t \<times> 8 word) option" where
  "cell_and_attr r i = map_option (\<lambda>v. (cells v i, current_attr v)) r"

text \<open>The cursor-position sequence \<^verbatim>\<open>ESC [ r ; c H\<close> with \<open>r\<close> and \<open>c\<close> in decimal.\<close>

definition cup :: "int \<Rightarrow> int \<Rightarrow> string" where
  "cup r c = CHR 0x1B # CHR ''['' # dec_int r @ '';'' @ dec_int c @ ''H''"

text \<open>A terminal in which a complete CSI sequence has just moved the cursor to
  \<open>(x, y)\<close>.\<close>

definition moved :: "vterm \<Rightarrow> int \<Rightarrow> int \<Rightarrow> vterm" where
  "moved vt x y = vt\<lparr>cursor_x := x, cursor_y := y, escape_state := 0, escape_buf := [], dirty := 1\<rparr>"

text \<open>
  The offset of the cell in column \<open>c - 1\<close> of row \<open>r - 1\<close>, clamped into the grid; when
  that is the bottom-right cell, the cell above it, because a character written into
  the bottom-right cell scrolls the grid at once.
\<close>

definition cup_cell :: "int \<Rightarrow> int \<Rightarrow> int" where
  "cup_cell r c =
     (let x = min (c - 1) (VTERM_COLS - 1); y = min (r - 1) (VTERM_ROWS - 1)
      in if x = VTERM_COLS - 1 \<and> y = VTERM_ROWS - 1 then (y - 1) * VTERM_COLS + x
         else y * VTERM_COLS + x)"

text \<open>
  The pool invariant: four terminals, a valid active index, the active terminal's
  \<^verbatim>\<open>cells\<close> pointing at \<^verbatim>\<open>s_iram_buffer\<close> and every other terminal's at its own storage.
\<close>

definition pool_ok :: "vtsys \<Rightarrow> bool" where
  "pool_ok sys =
     (0 \<le> s_active_vt sys \<and> s_active_vt sys < VTERM_COUNT \<and>
      map cells_at (s_vterms sys)
        = map (\<lambda>k. if int k = s_active_vt sys then IRAM else STORAGE) [0, 1, 2, 3])"

text \<open>What callers can observe of the pool: every terminal seen through its \<^verbatim>\<open>cells\<close>
  pointer, every input queue, and the active index.\<close>

definition pool_view :: "vtsys \<Rightarrow> vterm list \<times> string list \<times> int" where
  "pool_view sys =
     (map (load_vt sys) [0, 1, 2, 3], map input_queue (s_vterms sys), s_active_vt sys)"

text \<open>The pool with another content in the active terminal's backing storage and
  another list of switch-callback calls.\<close>

definition stash :: "vtsys \<Rightarrow> (int \<Rightarrow> vterm_cell_t) \<Rightarrow> int list \<Rightarrow> vtsys" where
  "stash sys x calls =
     sys\<lparr>s_vterms := (s_vterms sys)[nat (s_active_vt sys) :=
                          (s_vterms sys ! nat (s_active_vt sys))\<lparr>storage_cells := x\<rparr>],
         switch_calls := calls\<rparr>"

text \<open>
  The parameter string of the SGR sequence with the codes \<open>cs\<close>, decimal numbers
  separated by semicolons, and the bytes of a run of SGR sequences.
\<close>

fun sgr_params :: "int list \<Rightarrow> string" where
  "sgr_params [] = []"
| "sgr_params [c] = dec_int c"
| "sgr_params (c # d # cs) = dec_int c @ CHR '';'' # sgr_params (d # cs)"

definition sgr_bytes :: "int list list \<Rightarrow> string" where
  "sgr_bytes seqs = concat (map (\<lambda>cs. sgr (sgr_params cs)) seqs)"

text \<open>
  The SGR codes as the specification words them, on the bright flag and the running
  attribute: 0 resets; 1 sets the bright flag and applies it to the foreground; 22
  clears it; 30 to 37 set the standard foreground, combined with the bright flag; 39
  sets the default foreground; 40 to 47 and 49 set the background; 90 to 97 and 100 to
  107 set a bright foreground and a bright background; any other code is ignored.
\<close>

definition sgr_code :: "int \<Rightarrow> bool \<times> 8 word \<Rightarrow> bool \<times> 8 word" where
  "sgr_code num s =
     (let (bright, a) = s; fg = VTERM_ATTR_FG a; bg = VTERM_ATTR_BG a in
      if num = 0 then (False, VTERM_DEFAULT_ATTR)
      else if num = 1 then (True, VTERM_ATTR (fg OR VTERM_BRIGHT) bg)
      else if num = 22 then (False, VTERM_ATTR (fg AND 0x07) bg)
      else if 30 \<le> num \<and> num \<le> 37 then
        (bright, VTERM_ATTR (if bright then word_of_int (num - 30) OR VTERM_BRIGHT
                             else word_of_int (num - 30)) bg)
      else if num = 39 then (bright, VTERM_ATTR VTERM_WHITE bg)
      else if 40 \<le> num \<and> num \<le> 47 then (bright, VTERM_ATTR fg (word_of_int (num - 40)))
      else if num = 49 then (bright, VTERM_ATTR fg VTERM_BLACK)
      else if 90 \<le> num \<and> num \<le> 97 then
        (bright, VTERM_ATTR (word_of_int (num - 90) OR VTERM_BRIGHT) bg)
      else if 100 \<le> num \<and> num \<le> 107 then
        (bright, VTERM_ATTR fg (word_of_int (num - 100) OR VTERM_BRIGHT))
      else (bright, a))"

text \<open>
  One SGR sequence with the codes \<open>cs\<close>, applied left to right to the attribute \<open>a\<close>: the
  bright flag is cleared when the sequence starts, and an empty parameter list resets
  the attribute. A run of sequences applies them one after the other.
\<close>

definition sgr_codes :: "int list \<Rightarrow> 8 word \<Rightarrow> 8 word" where
  "sgr_codes cs a =
     (if cs = [] then VTERM_DEFAULT_ATTR else snd (foldl (\<lambda>s c. sgr_code c s) (False, a) cs))"

definition sgr_seqs :: "int list list \<Rightarrow> 8 word \<Rightarrow> 8 word" where
  "sgr_seqs seqs a = foldl (\<lambda>a cs. sgr_codes cs a) a seqs"

text \<open>
  The codes other than 0, 22 and the foreground codes 30 to 37, 39 and 90 to 97: they
  neither pick a foreground colour nor clear the bright flag. Those of them other than
  code 1 leave the foreground and the bright flag as they are.
\<close>

definition keeps_colour :: "int \<Rightarrow> bool" where
  "keeps_colour c =
     (c \<noteq> 0 \<and> c \<noteq> 22 \<and> c \<noteq> 39 \<and> \<not> (30 \<le> c \<and> c \<le> 37) \<and> \<not> (90 \<le> c \<and> c \<le> 97))"

definition keeps_fg :: "int \<Rightarrow> bool" where
  "keeps_fg c = (keeps_colour c \<and> c \<noteq> 1)"

text \<open>
  The sequences considered: the parameter string fits the 31 bytes that
  \<^verbatim>\<open>escape_buf\<close> holds before the final byte, every code is in the range of \<^verbatim>\<open>int\<close>, and
  the extended-colour codes 38 and 48, which take sub-parameters, do not occur.
\<close>

definition sgr_ok :: "int list \<Rightarrow> bool" where
  "sgr_ok cs =
     (length (sgr_params cs) \<le> 30 \<and>
      list_all (\<lambda>c. 0 \<le> c \<and> c \<le> 2147483647 \<and> c \<noteq> 38 \<and> c \<noteq> 48) cs)"

section \<open>The render callback\<close>

lemma send_input_frame:
  "render_calls (vterm_send_input sys k c) = render_calls sys"
  "switch_calls (vterm_send_input sys k c) = switch_calls sys"
  "s_active_vt (vterm_send_input sys k c) = s_active_vt sys"
  "s_iram_buffer (vterm_send_input sys k c) = s_iram_buffer sys"
  "s_esc_buf (vterm_send_input sys k c) = s_esc_buf sys"
  "s_esc_start (vterm_send_input sys k c) = s_esc_start sys"
  "s_on_switch_cb (vterm_send_input sys k c) = s_on_switch_cb sys"
  "s_on_render_cb (vterm_send_input sys k c) = s_on_render_cb sys"
  "length (s_vterms (vterm_send_input sys k c)) = length (s_vterms sys)"
  by (simp_all add: vterm_send_input_def Let_def)

lemma deliver_render_calls:
  "render_calls (foldl (\<lambda>s c. vterm_send_input s (s_active_vt s) c) sys bs) = render_calls sys"
  by (induction bs arbitrary: sys) (simp_all add: send_input_frame)

lemma store_vt_render_calls: "render_calls (store_vt sys k v) = render_calls sys"
  by (simp add: store_vt_def Let_def deliver_render_calls split: cells_ptr.split)

lemma write_never_renders:
  "vterm_write sys vt_id data = Some sys' \<Longrightarrow> render_calls sys' = render_calls sys"
  by (auto simp: vterm_write_def store_vt_render_calls split: if_splits)

lemma putchar_never_renders:
  "vterm_putchar sys vt_id c = Some sys' \<Longrightarrow> render_calls sys' = render_calls sys"
  by (auto simp: vterm_putchar_def store_vt_render_calls split: if_splits)

text \<open>
  C10. The claim: after every write that changes a terminal's content the registered
  render callback is called with that terminal's index. In the code no write calls
  it: with a callback registered, writing \<open>A\<close> to the active terminal 0 of a freshly
  initialised pool changes the first cell of the grid and leaves the list of
  render-callback calls empty.
\<close>

theorem C10_write_does_not_call_render_callback:
  "map_option (\<lambda>s. (s_on_render_cb s, ch (s_iram_buffer s 0), render_calls s))
     (vterm_write (vterm_set_render_callback (vterm_init blank_mem) True) 0 ''A'')
   = Some (True, CHR ''A'', [])"
  by (simp add: write_locked_def rederive_def vterm_handle_escape_def
      vterm_putchar_internal_def ord_def wrap32_def VTERM_COLS_def VTERM_ROWS_def
      VTERM_COUNT_def cell_index_def next_row_def putchar_locked_def byte_step_def
      flush_locals_def reload_locals_def Let_def
      vterm_write_def vterm_init_def blank_session_def load_vt_def store_vt_def
      deref_cells_def vterm_set_render_callback_def fill_range_def blank_mem_def)


section \<open>The hotkey detector\<close>

lemmas hotkey_defs = vterm_input_feed_def match_vt_hotkey_def match_ss3_def match_xterm_def
  match_tilde_def match_csi_u_def could_be_hotkey_def fkey_letter_def is_digit_def ord_def
  wrap32_def Let_def

lemma map_update_same:
  assumes "\<And>x. f (g x) = f x"
  shows "map f (xs[i := g (xs ! i)]) = map f xs"
proof (cases "i < length xs")
  case True
  then show ?thesis by (simp add: map_update assms list_update_same_conv)
next
  case False
  then have "xs[i := g (xs ! i)] = xs" by (simp add: list_update_beyond)
  then show ?thesis by simp
qed

lemma switch_keeps_queues:
  "map input_queue (s_vterms (vterm_switch sys k)) = map input_queue (s_vterms sys)"
proof -
  let ?a = "nat (s_active_vt sys)"
  let ?g = "\<lambda>t. t\<lparr>storage_cells := copy_grid (storage_cells t) (s_iram_buffer sys),
                   cells_at := STORAGE\<rparr>"
  let ?vts1 = "(s_vterms sys)[?a := ?g (s_vterms sys ! ?a)]"
  have one: "map input_queue ?vts1 = map input_queue (s_vterms sys)"
    by (rule map_update_same) simp
  have two: "map input_queue (?vts1[nat k := (?vts1 ! nat k)\<lparr>cells_at := IRAM\<rparr>])
             = map input_queue ?vts1"
    by (rule map_update_same) simp
  show ?thesis
    using one two by (simp add: vterm_switch_def Let_def)
qed

lemma switch_to_zero_active: "s_active_vt (vterm_switch sys 0) = 0"
  by (simp add: vterm_switch_def Let_def VTERM_COUNT_def)

lemma switch_active:
  "0 \<le> k \<Longrightarrow> k < VTERM_COUNT \<Longrightarrow> s_active_vt (vterm_switch sys k) = k"
  by (simp add: vterm_switch_def Let_def)

lemma switch_keeps_detector: "s_esc_buf (vterm_switch sys k) = s_esc_buf sys"
  by (simp add: vterm_switch_def Let_def)

lemma init_queues: "map input_queue (s_vterms (vterm_init m)) = [[], [], [], []]"
  by (simp add: vterm_init_def blank_session_def)

lemma init_idle: "s_esc_buf (vterm_init m) = []"
  by (simp add: vterm_init_def)

lemma ticks_at_1000_hz: "pdMS_TO_TICKS 1000 20 = 20"
  by (simp add: pdMS_TO_TICKS_def)

lemma feed_vt_f1:
  assumes "s_esc_buf sys = []"
    and "t1 - t0 \<le> pdMS_TO_TICKS hz 20" and "t2 - t0 \<le> pdMS_TO_TICKS hz 20"
    and "t3 - t0 \<le> pdMS_TO_TICKS hz 20" and "t4 - t0 \<le> pdMS_TO_TICKS hz 20"
  shows "feed_all hz sys
           [(t0, CHR 0x1B), (t1, CHR ''[''), (t2, CHR ''1''), (t3, CHR ''1''), (t4, CHR ''~'')]
         = ([0, 0, 0, 0, 1], vterm_switch (sys\<lparr>s_esc_start := t0, s_esc_buf := []\<rparr>) 0)"
  using assms by (simp add: hotkey_defs not_less[symmetric])

lemma feed_vt_f1_with_stray_byte:
  assumes "s_esc_buf sys = []"
    and "t1 - t0 \<le> pdMS_TO_TICKS hz 20" and "t2 - t0 \<le> pdMS_TO_TICKS hz 20"
    and "t3 - t0 \<le> pdMS_TO_TICKS hz 20" and "t4 - t0 \<le> pdMS_TO_TICKS hz 20"
    and "t5 - t0 \<le> pdMS_TO_TICKS hz 20"
  shows "feed_all hz sys
           [(t0, CHR 0x1B), (t1, CHR ''[''), (t2, CHR ''1''), (t3, CHR ''1''), (t4, CHR ''a''),
            (t5, CHR ''~'')]
         = ([0, 0, 0, 0, 0, 1], vterm_switch (sys\<lparr>s_esc_start := t0, s_esc_buf := []\<rparr>) 0)"
  using assms by (simp add: hotkey_defs not_less[symmetric])

text \<open>
  C8. When the detector is idle and the bytes ESC, \<open>[\<close>, \<open>1\<close>, \<open>1\<close>, \<open>~\<close> are fed one at a
  time, each no later than 20 ms (in ticks) after the ESC, the first four calls return
  0 and the last returns 1, no terminal's input queue changes, and the state is the
  one \<^verbatim>\<open>vterm_switch(0)\<close> leaves, with terminal 0 active.
\<close>

theorem C8_vt_f1_is_consumed_and_switches_to_0:
  assumes "s_esc_buf sys = []"
    and "t1 - t0 \<le> pdMS_TO_TICKS hz 20" and "t2 - t0 \<le> pdMS_TO_TICKS hz 20"
    and "t3 - t0 \<le> pdMS_TO_TICKS hz 20" and "t4 - t0 \<le> pdMS_TO_TICKS hz 20"
  shows "case feed_all hz sys
                [(t0, CHR 0x1B), (t1, CHR ''[''), (t2, CHR ''1''), (t3, CHR ''1''), (t4, CHR ''~'')]
         of (rs, sys') \<Rightarrow>
           rs = [0, 0, 0, 0, 1] \<and>
           map input_queue (s_vterms sys') = map input_queue (s_vterms sys) \<and>
           s_active_vt sys' = 0 \<and>
           sys' = vterm_switch (sys\<lparr>s_esc_start := t0, s_esc_buf := []\<rparr>) 0"
  unfolding feed_vt_f1[OF assms]
  by (simp add: switch_keeps_queues switch_to_zero_active)

theorem C8_witness:
  "s_esc_buf (vterm_switch (vterm_init blank_mem) 1) = [] \<and>
   (1 :: 32 word) - 0 \<le> pdMS_TO_TICKS 1000 20 \<and> (2 :: 32 word) - 0 \<le> pdMS_TO_TICKS 1000 20 \<and>
   (3 :: 32 word) - 0 \<le> pdMS_TO_TICKS 1000 20 \<and> (4 :: 32 word) - 0 \<le> pdMS_TO_TICKS 1000 20 \<and>
   s_active_vt (vterm_switch (vterm_init blank_mem) 1) = 1 \<and>
   (case feed_all 1000 (vterm_switch (vterm_init blank_mem) 1)
           [(0, CHR 0x1B), (1, CHR ''[''), (2, CHR ''1''), (3, CHR ''1''), (4, CHR ''~'')]
    of (rs, sys') \<Rightarrow>
      rs = [0, 0, 0, 0, 1] \<and>
      map input_queue (s_vterms sys')
        = map input_queue (s_vterms (vterm_switch (vterm_init blank_mem) 1)) \<and>
      s_active_vt sys' = 0 \<and>
      sys' = vterm_switch ((vterm_switch (vterm_init blank_mem) 1)\<lparr>s_esc_start := 0, s_esc_buf := []\<rparr>) 0)"
proof -
  let ?sys = "vterm_switch (vterm_init blank_mem) 1"
  have idle: "s_esc_buf ?sys = []"
    by (simp add: switch_keeps_detector init_idle)
  have t1: "(1 :: 32 word) - 0 \<le> pdMS_TO_TICKS 1000 20"
    and t2: "(2 :: 32 word) - 0 \<le> pdMS_TO_TICKS 1000 20"
    and t3: "(3 :: 32 word) - 0 \<le> pdMS_TO_TICKS 1000 20"
    and t4: "(4 :: 32 word) - 0 \<le> pdMS_TO_TICKS 1000 20"
    by (simp_all add: ticks_at_1000_hz)
  have active: "s_active_vt ?sys = 1"
    by (simp add: switch_active VTERM_COUNT_def)
  note run = C8_vt_f1_is_consumed_and_switches_to_0[OF idle t1 t2 t3 t4]
  from idle t1 t2 t3 t4 active run show ?thesis
    by blast
qed

text \<open>
  C9. The claim: ESC \<open>[ 1 1\<close> followed by a byte that is not \<open>~\<close>, a digit or \<open>;\<close> is
  not treated as a hotkey and every buffered byte is delivered. In the code the
  bytes ESC \<open>[ 1 1 a ~\<close>, fed to an idle detector while terminal 1 is active, end with
  return value 1 and terminal 0 active, and no byte reaches any input queue.
\<close>

theorem C9_stray_byte_still_matches_f1:
  "s_active_vt (vterm_switch (vterm_init blank_mem) 1) = 1 \<and>
   (case feed_all 1000 (vterm_switch (vterm_init blank_mem) 1)
           [(0, CHR 0x1B), (1, CHR ''[''), (2, CHR ''1''), (3, CHR ''1''), (4, CHR ''a''),
            (5, CHR ''~'')]
    of (rs, sys') \<Rightarrow> (rs, map input_queue (s_vterms sys'), s_active_vt sys'))
   = ([0, 0, 0, 0, 0, 1], [[], [], [], []], 0)"
proof -
  let ?sys = "vterm_switch (vterm_init blank_mem) 1"
  have idle: "s_esc_buf ?sys = []"
    by (simp add: switch_keeps_detector init_idle)
  have feed: "feed_all 1000 ?sys
           [(0, CHR 0x1B), (1, CHR ''[''), (2, CHR ''1''), (3, CHR ''1''), (4, CHR ''a''),
            (5, CHR ''~'')]
        = ([0, 0, 0, 0, 0, 1], vterm_switch (?sys\<lparr>s_esc_start := 0, s_esc_buf := []\<rparr>) 0)"
    by (rule feed_vt_f1_with_stray_byte[OF idle]) (simp_all add: ticks_at_1000_hz)
  have queues: "map input_queue
                  (s_vterms (vterm_switch (?sys\<lparr>s_esc_start := 0, s_esc_buf := []\<rparr>) 0))
                = [[], [], [], []]"
    by (simp add: switch_keeps_queues init_queues)
  have active: "s_active_vt ?sys = 1"
    by (simp add: switch_active VTERM_COUNT_def)
  show ?thesis
    by (simp only: feed prod.case queues switch_to_zero_active active simp_thms)
qed


section \<open>Printable bytes\<close>

lemma wrap32_id: "- 2147483648 \<le> x \<Longrightarrow> x < 2147483648 \<Longrightarrow> wrap32 x = x"
  unfolding wrap32_def by simp

lemma printable_not_control:
  "printable c \<Longrightarrow> c \<noteq> CHR 0x1B \<and> c \<noteq> CHR 0x0A \<and> c \<noteq> CHR 0x0D \<and> c \<noteq> CHR 0x08 \<and> c \<noteq> CHR 0x09"
  by (auto simp: printable_def ord_def)

lemma handle_escape_idle:
  "escape_state vt = 0 \<Longrightarrow> c \<noteq> CHR 0x1B \<Longrightarrow> vterm_handle_escape vt c = Some (0, vt)"
  by (simp add: vterm_handle_escape_def)

lemma putchar_locked_printable:
  assumes "cursor_ok vt" "escape_state vt = 0" "printable c"
  shows "putchar_locked vt c = Some
     (let w = (cells vt)(cell_index vt := \<lparr>ch = c, attr = current_attr vt\<rparr>) in
      if cursor_x vt + 1 < VTERM_COLS then vt\<lparr>cursor_x := cursor_x vt + 1, dirty := 1, cells := w\<rparr>
      else if cursor_y vt + 1 < VTERM_ROWS
        then vt\<lparr>cursor_x := 0, cursor_y := cursor_y vt + 1, dirty := 1, cells := w\<rparr>
      else vt\<lparr>cursor_x := 0, cursor_y := VTERM_ROWS - 1, dirty := 1, cells := scroll_cells w\<rparr>)"
proof -
  have nc: "c \<noteq> CHR 0x1B" "c \<noteq> CHR 0x0A" "c \<noteq> CHR 0x0D" "c \<noteq> CHR 0x08" "c \<noteq> CHR 0x09"
    using printable_not_control[OF assms(3)] by simp_all
  have p: "32 \<le> ord c" "ord c < 127" using assms(3) by (simp_all add: printable_def)
  have b: "0 \<le> cursor_x vt" "cursor_x vt < 128" "0 \<le> cursor_y vt" "cursor_y vt < 37"
    using assms(1) by (simp_all add: cursor_ok_def VTERM_COLS_def VTERM_ROWS_def)
  have wx: "wrap32 (cursor_x vt + 1) = cursor_x vt + 1" and wy: "wrap32 (cursor_y vt + 1) = cursor_y vt + 1"
    using b by (simp_all add: wrap32_id)
  show ?thesis
    using b
    by (simp add: putchar_locked_def byte_step_def handle_escape_idle[OF assms(2) nc(1)] vterm_putchar_internal_def
        nc p wx wy next_row_def vterm_scroll_def scroll_cells_def Let_def VTERM_COLS_def VTERM_ROWS_def)
qed


lemma putchars_append:
  "putchars vt (xs @ ys) = (case putchars vt xs of None \<Rightarrow> None | Some v \<Rightarrow> putchars v ys)"
  by (induction xs arbitrary: vt) (auto split: option.splits)

lemma page_snoc:
  "page old p a (data @ [c]) j =
     (if j = p + int (length data) then \<lparr>ch = c, attr = a\<rparr> else page old p a data j)"
  by (auto simp: page_def nth_append)

lemma shown_put:
  assumes "q = cell_index vt + int (length data)" "0 \<le> q - s * VTERM_COLS" "q - s * VTERM_COLS < GRID"
  shows "(shown vt data s)(q - s * VTERM_COLS := \<lparr>ch = c, attr = current_attr vt\<rparr>) = shown vt (data @ [c]) s"
  using assms by (auto simp: shown_def page_snoc fun_eq_iff)

lemma shown_scroll:
  assumes "cell_index vt + int (length data) + 1 = (VTERM_ROWS + s) * VTERM_COLS" "0 \<le> s"
  shows "scroll_cells (shown vt (data @ [c]) s) = shown vt (data @ [c]) (s + 1)"
proof
  fix i
  have out: "page (cells vt) (cell_index vt) (current_attr vt) (data @ [c]) j = blank_cell"
    if "(VTERM_ROWS + s) * VTERM_COLS \<le> j" for j
    using that assms by (simp add: page_def GRID_def VTERM_COLS_def VTERM_ROWS_def)
  show "scroll_cells (shown vt (data @ [c]) s) i = shown vt (data @ [c]) (s + 1) i"
  proof (cases "0 \<le> i \<and> i < (VTERM_ROWS - 1) * VTERM_COLS")
    case True
    then show ?thesis
      by (simp add: scroll_cells_def fill_range_def move_cells_def shown_def GRID_def
          VTERM_COLS_def VTERM_ROWS_def algebra_simps)
  next
    case False
    show ?thesis
    proof (cases "(VTERM_ROWS - 1) * VTERM_COLS \<le> i \<and> i < GRID")
      case True
      then have "(VTERM_ROWS + s) * VTERM_COLS \<le> i + (s + 1) * VTERM_COLS"
        by (simp add: GRID_def VTERM_COLS_def VTERM_ROWS_def algebra_simps)
      from out[OF this] True show ?thesis
        by (simp add: scroll_cells_def fill_range_def move_cells_def shown_def GRID_def
            VTERM_COLS_def VTERM_ROWS_def)
    next
      case False
      with \<open>\<not> (0 \<le> i \<and> i < (VTERM_ROWS - 1) * VTERM_COLS)\<close> show ?thesis
        by (auto simp add: scroll_cells_def fill_range_def move_cells_def shown_def GRID_def
            VTERM_COLS_def VTERM_ROWS_def)
    qed
  qed
qed


lemma shown_nothing: "shown vt [] 0 = cells vt"
  by (auto simp: shown_def page_def fun_eq_iff)

lemma putchars_printable_state:
  assumes ok: "cursor_ok vt" and idle: "escape_state vt = 0"
  shows "(\<forall>c\<in>set data. printable c) \<Longrightarrow>
     \<exists>x y s. putchars vt data =
                Some (vt\<lparr>cursor_x := x, cursor_y := y,
                         dirty := (if data = [] then dirty vt else 1),
                         cells := shown vt data s\<rparr>) \<and>
             0 \<le> x \<and> x < VTERM_COLS \<and> 0 \<le> y \<and> y < VTERM_ROWS \<and> 0 \<le> s \<and>
             (s = 0 \<or> y = VTERM_ROWS - 1) \<and>
             cell_index vt + int (length data) = (y + s) * VTERM_COLS + x"
proof (induction data rule: rev_induct)
  case Nil
  have "putchars vt [] = Some (vt\<lparr>cursor_x := cursor_x vt, cursor_y := cursor_y vt,
                         dirty := dirty vt, cells := shown vt [] 0\<rparr>)"
    by (simp add: shown_nothing)
  moreover have "cell_index vt + int (length ([] :: string)) = (cursor_y vt + 0) * VTERM_COLS + cursor_x vt"
    by (simp add: cell_index_def)
  ultimately show ?case
    using ok unfolding cursor_ok_def by (intro exI[of _ "cursor_x vt"] exI[of _ "cursor_y vt"] exI[of _ 0]) simp
next
  case (snoc c data)
  then have pc: "printable c" and pd: "\<forall>c\<in>set data. printable c"
    by simp_all
  from snoc.IH[OF pd] obtain x y s where
    run: "putchars vt data = Some (vt\<lparr>cursor_x := x, cursor_y := y,
                         dirty := (if data = [] then dirty vt else 1),
                         cells := shown vt data s\<rparr>)"
    and bx: "0 \<le> x" "x < VTERM_COLS" and "by": "0 \<le> y" "y < VTERM_ROWS" and s0: "0 \<le> s"
    and top: "s = 0 \<or> y = VTERM_ROWS - 1"
    and q: "cell_index vt + int (length data) = (y + s) * VTERM_COLS + x"
    by blast
  let ?V = "vt\<lparr>cursor_x := x, cursor_y := y, dirty := (if data = [] then dirty vt else 1),
                cells := shown vt data s\<rparr>"
  let ?q = "cell_index vt + int (length data)"
  have okV: "cursor_ok ?V" using bx "by" by (simp add: cursor_ok_def)
  have idleV: "escape_state ?V = 0" using idle by simp
  have idx: "cell_index ?V = ?q - s * VTERM_COLS"
    using q by (simp add: cell_index_def algebra_simps)
  have in_grid: "0 \<le> ?q - s * VTERM_COLS" "?q - s * VTERM_COLS < GRID"
    using q bx "by" by (simp_all add: GRID_def VTERM_COLS_def VTERM_ROWS_def algebra_simps)
  have put: "(shown vt data s)(cell_index ?V := \<lparr>ch = c, attr = current_attr ?V\<rparr>) = shown vt (data @ [c]) s"
    unfolding idx using shown_put[OF refl in_grid] by simp
  have step: "putchars vt (data @ [c]) = putchar_locked ?V c"
    by (simp add: putchars_append run split: option.splits)
  note eff = putchar_locked_printable[OF okV idleV pc]
  consider (same) "x + 1 < VTERM_COLS"
    | (wrap) "x + 1 = VTERM_COLS" "y + 1 < VTERM_ROWS"
    | (scroll) "x + 1 = VTERM_COLS" "y + 1 = VTERM_ROWS"
    using bx "by" by linarith
  then show ?case
  proof cases
    case same
    have "putchars vt (data @ [c]) = Some (vt\<lparr>cursor_x := x + 1, cursor_y := y,
                         dirty := (if data @ [c] = [] then dirty vt else 1),
                         cells := shown vt (data @ [c]) s\<rparr>)"
      unfolding step eff using same put by (simp add: Let_def)
    moreover have "cell_index vt + int (length (data @ [c])) = (y + s) * VTERM_COLS + (x + 1)"
      using q by simp
    ultimately show ?thesis
      using same bx "by" s0 top
      by (intro exI[of _ "x + 1"] exI[of _ y] exI[of _ s]) simp
  next
    case wrap
    have s_zero: "s = 0" using top wrap by auto
    have "putchars vt (data @ [c]) = Some (vt\<lparr>cursor_x := 0, cursor_y := y + 1,
                         dirty := (if data @ [c] = [] then dirty vt else 1),
                         cells := shown vt (data @ [c]) s\<rparr>)"
      unfolding step eff using wrap put by (simp add: Let_def)
    moreover have "cell_index vt + int (length (data @ [c])) = (y + 1 + s) * VTERM_COLS + 0"
      using q wrap by (simp add: VTERM_COLS_def VTERM_ROWS_def)
    ultimately show ?thesis
      using wrap bx "by" s0 s_zero
      by (intro exI[of _ 0] exI[of _ "y + 1"] exI[of _ s]) (simp add: VTERM_COLS_def)
  next
    case scroll
    have total: "cell_index vt + int (length data) + 1 = (VTERM_ROWS + s) * VTERM_COLS"
      using q scroll by (simp add: VTERM_COLS_def VTERM_ROWS_def)
    have "putchars vt (data @ [c]) = Some (vt\<lparr>cursor_x := 0, cursor_y := VTERM_ROWS - 1,
                         dirty := (if data @ [c] = [] then dirty vt else 1),
                         cells := shown vt (data @ [c]) (s + 1)\<rparr>)"
      unfolding step eff using scroll put shown_scroll[OF total s0, of c]
      by (simp add: Let_def)
    moreover have "cell_index vt + int (length (data @ [c])) = (VTERM_ROWS - 1 + (s + 1)) * VTERM_COLS + 0"
      using total by (simp add: VTERM_COLS_def VTERM_ROWS_def)
    ultimately show ?thesis
      using s0
      by (intro exI[of _ 0] exI[of _ "VTERM_ROWS - 1"] exI[of _ "s + 1"])
         (simp add: VTERM_COLS_def VTERM_ROWS_def)
  qed
qed

lemma putchars_printable:
  assumes ok: "cursor_ok vt" and idle: "escape_state vt = 0" and pr: "\<forall>c\<in>set data. printable c"
  shows "putchars vt data = Some (typed vt data)"
proof -
  from putchars_printable_state[OF ok idle pr] obtain x y s where
    run: "putchars vt data = Some (vt\<lparr>cursor_x := x, cursor_y := y,
                         dirty := (if data = [] then dirty vt else 1),
                         cells := shown vt data s\<rparr>)"
    and bx: "0 \<le> x" "x < VTERM_COLS" and "by": "0 \<le> y" "y < VTERM_ROWS" and s0: "0 \<le> s"
    and top: "s = 0 \<or> y = VTERM_ROWS - 1"
    and q: "cell_index vt + int (length data) = (y + s) * VTERM_COLS + x"
    by blast
  let ?q = "cell_index vt + int (length data)"
  have q': "?q = VTERM_COLS * (y + s) + x" using q by (simp add: algebra_simps)
  have d: "?q div VTERM_COLS = y + s"
    using bx by (intro int_div_pos_eq[OF q']) simp_all
  have m: "?q mod VTERM_COLS = x"
    using bx by (intro int_mod_pos_eq[OF q']) simp_all
  have sc: "scrolled (cell_index vt) (int (length data)) = s"
    using top "by" s0 by (auto simp: scrolled_def d)
  show ?thesis
    unfolding run typed_def Let_def sc d m by simp
qed

section \<open>The batched write against byte-at-a-time writes\<close>

lemma scroll_dirty: "vterm_scroll (v\<lparr>dirty := d\<rparr>) = (vterm_scroll v)\<lparr>dirty := d\<rparr>"
  by (cases v) (simp add: vterm_scroll_def)

lemma next_row_dirty: "next_row (v\<lparr>dirty := d\<rparr>) = (next_row v)\<lparr>dirty := d\<rparr>"
  by (cases v) (simp add: next_row_def Let_def vterm_scroll_def)

lemma putchar_internal_dirty:
  "vterm_putchar_internal (v\<lparr>dirty := d\<rparr>) c = (vterm_putchar_internal v c)\<lparr>dirty := d\<rparr>"
  by (cases v) (simp add: vterm_putchar_internal_def Let_def cell_index_def next_row_def vterm_scroll_def split: prod.splits)

lemma clear_dirty: "vterm_clear_internal (v\<lparr>dirty := d\<rparr>) = (vterm_clear_internal v)\<lparr>dirty := d\<rparr>"
  by (cases v) (simp add: vterm_clear_internal_def)

lemma apply_sgr_dirty:
  "vterm_apply_sgr (v\<lparr>dirty := d\<rparr>) p = map_option (\<lambda>w. w\<lparr>dirty := d\<rparr>) (vterm_apply_sgr v p)"
  by (cases v) (simp add: vterm_apply_sgr_def Let_def option.map_comp comp_def split: prod.splits)

lemma csi_final_dirty:
  "csi_final (v\<lparr>dirty := d\<rparr>) c p = map_option (\<lambda>w. w\<lparr>dirty := d\<rparr>) (csi_final v c p)"
  unfolding csi_final_def apply_sgr_dirty clear_dirty
  by (cases v) (simp add: Let_def vterm_clear_internal_def split: prod.splits)

lemma handle_escape_dirty:
  "map_option (\<lambda>(h, w). (h, undirty w)) (vterm_handle_escape (v\<lparr>dirty := d\<rparr>) c)
   = map_option (\<lambda>(h, w). (h, undirty w)) (vterm_handle_escape v c)"
  unfolding vterm_handle_escape_def csi_final_dirty
  by (cases v) (simp add: Let_def vterm_scroll_def undirty_def
      option.map_comp comp_def)


lemma undirty_dirty [simp]: "undirty (v\<lparr>dirty := d\<rparr>) = undirty v"
  by (simp add: undirty_def)

lemma undirty_idem [simp]: "undirty (undirty v) = undirty v"
  by (simp add: undirty_def)

lemma undirty_putchar_internal:
  "undirty (vterm_putchar_internal (undirty w) c) = undirty (vterm_putchar_internal w c)"
  by (simp add: undirty_def putchar_internal_dirty)

lemma byte_step_dirty:
  "map_option undirty (byte_step (v\<lparr>dirty := d\<rparr>) c) = map_option undirty (byte_step v c)"
proof -
  have shape: "map_option undirty (byte_step u c)
        = map_option (\<lambda>(h, w). undirty (if h = 0 then vterm_putchar_internal (undirty w) c else undirty w))
            (map_option (\<lambda>(h, w). (h, undirty w)) (vterm_handle_escape u c))" for u
    by (auto simp: byte_step_def option.map_comp comp_def undirty_putchar_internal
        split: option.splits prod.splits)
  show ?thesis
    unfolding shape handle_escape_dirty ..
qed

lemma set_dirty_undirty: "(undirty w)\<lparr>dirty := d\<rparr> = w\<lparr>dirty := d\<rparr>"
  by (simp add: undirty_def)

lemma putchar_locked_dirty: "putchar_locked (v\<lparr>dirty := d\<rparr>) c = putchar_locked v c"
proof -
  have "putchar_locked u c = map_option (\<lambda>w. w\<lparr>dirty := 1\<rparr>) (map_option undirty (byte_step u c))" for u
    by (simp add: putchar_locked_def option.map_comp comp_def set_dirty_undirty)
  then show ?thesis
    by (simp add: byte_step_dirty)
qed

lemma safe_run_dirty: "safe_run (v\<lparr>dirty := d\<rparr>) cs = safe_run v cs"
  by (cases cs) (simp_all add: putchar_locked_dirty cursor_ok_def)

lemma putchars_dirty:
  "map_option undirty (putchars (v\<lparr>dirty := d\<rparr>) cs) = map_option undirty (putchars v cs)"
  by (cases cs) (simp_all add: putchar_locked_dirty)

lemma flush_reload: "flush_locals v (reload_locals l v) = v"
  by (cases v; cases l) (simp add: flush_locals_def reload_locals_def rederive_def Let_def)

lemma locals_ok_reload: "locals_ok l \<Longrightarrow> locals_ok (reload_locals l v)"
  by (cases v; cases l) (simp add: locals_ok_def reload_locals_def rederive_def Let_def)

lemma write_loop_slow:
  "\<not> (escape_mode l = 0 \<and> printable c) \<Longrightarrow>
   write_loop vt l (c # cs) =
     (case byte_step (flush_locals vt l) c of
        None \<Rightarrow> None
      | Some vt3 \<Rightarrow> write_loop vt3 (reload_locals l vt3) cs)"
  by (auto simp: printable_def)

lemma write_loop_fast:
  assumes lok: "locals_ok l" and ok: "cursor_ok (flush_locals vt l)"
    and em: "escape_mode l = 0" and pc: "printable c"
  shows "\<exists>vt' l' w d. putchar_locked (flush_locals vt l) c = Some w \<and>
           write_loop vt l (c # cs) = write_loop vt' l' cs \<and>
           locals_ok l' \<and> flush_locals vt' l' = w\<lparr>dirty := d\<rparr>"
proof -
  have idle: "escape_state (flush_locals vt l) = 0"
    using em by (simp add: flush_locals_def)
  note eff = putchar_locked_printable[OF ok idle pc]
  have b: "0 \<le> cx l" "cx l < 128" "0 \<le> cy l" "cy l < 37"
    using ok by (simp_all add: cursor_ok_def flush_locals_def VTERM_COLS_def VTERM_ROWS_def)
  have wx: "wrap32 (cx l + 1) = cx l + 1" and wy: "wrap32 (cy l + 1) = cy l + 1"
    using b by (simp_all add: wrap32_id)
  have p: "32 \<le> ord c" "ord c < 127" using pc by (simp_all add: printable_def)
  have ptr: "cursor_ptr l = cy l * 128 + cx l" "row_end l = cy l * 128 + 128"
    using lok by (simp_all add: locals_ok_def VTERM_COLS_def)
  consider (same) "cx l + 1 < 128"
    | (wrap) "cx l + 1 = 128" "cy l + 1 < 37"
    | (scroll) "cx l + 1 = 128" "cy l + 1 = 37"
    using b by linarith
  then show ?thesis
  proof cases
    case same
    let ?vt' = "vt\<lparr>cells := (cells vt)(cursor_ptr l := \<lparr>ch = c, attr = attr_cache l\<rparr>)\<rparr>"
    let ?l' = "l\<lparr>cursor_ptr := cursor_ptr l + 1, cx := cx l + 1\<rparr>"
    have 1: "write_loop vt l (c # cs) = write_loop ?vt' ?l' cs"
      using same em p wx ptr by (simp add: Let_def)
    have 2: "locals_ok ?l'"
      using ptr by (simp add: locals_ok_def VTERM_COLS_def)
    have 3: "flush_locals ?vt' ?l' = (the (putchar_locked (flush_locals vt l) c))\<lparr>dirty := dirty vt\<rparr>"
      unfolding eff using same ptr
      by (cases vt; cases l) (simp add: flush_locals_def Let_def cell_index_def VTERM_COLS_def VTERM_ROWS_def)
    show ?thesis
      using 1 2 3 eff by (metis option.sel)
  next
    case wrap
    let ?vt' = "vt\<lparr>cells := (cells vt)(cursor_ptr l := \<lparr>ch = c, attr = attr_cache l\<rparr>)\<rparr>"
    let ?l' = "l\<lparr>cursor_ptr := cursor_ptr l + 1, cx := 0, cy := cy l + 1, row_end := row_end l + VTERM_COLS\<rparr>"
    have 1: "write_loop vt l (c # cs) = write_loop ?vt' ?l' cs"
      using wrap em p wx wy ptr by (cases l) (simp add: Let_def VTERM_ROWS_def)
    have 2: "locals_ok ?l'"
      using ptr wrap by (simp add: locals_ok_def VTERM_COLS_def)
    have 3: "flush_locals ?vt' ?l' = (the (putchar_locked (flush_locals vt l) c))\<lparr>dirty := dirty vt\<rparr>"
      unfolding eff using wrap ptr
      by (cases vt; cases l) (simp add: flush_locals_def Let_def cell_index_def VTERM_COLS_def VTERM_ROWS_def)
    show ?thesis
      using 1 2 3 eff by (metis option.sel)
  next
    case scroll
    let ?vt1 = "vt\<lparr>cells := (cells vt)(cursor_ptr l := \<lparr>ch = c, attr = attr_cache l\<rparr>)\<rparr>"
    let ?vt' = "vterm_scroll (?vt1\<lparr>cursor_x := 0, cursor_y := cy l + 1\<rparr>)"
    let ?l' = "rederive (l\<lparr>cursor_ptr := cursor_ptr l + 1, cx := 0, cy := VTERM_ROWS - 1\<rparr>)"
    have 1: "write_loop vt l (c # cs) = write_loop ?vt' ?l' cs"
      using scroll em p wx wy ptr by (cases l) (simp add: Let_def VTERM_ROWS_def vterm_scroll_def)
    have 2: "locals_ok ?l'"
      by (simp add: locals_ok_def rederive_def)
    have 3: "flush_locals ?vt' ?l' = (the (putchar_locked (flush_locals vt l) c))\<lparr>dirty := dirty vt\<rparr>"
      unfolding eff using scroll ptr
      by (cases vt; cases l) (simp add: flush_locals_def Let_def cell_index_def VTERM_COLS_def VTERM_ROWS_def
          vterm_scroll_def scroll_cells_def rederive_def)
    show ?thesis
      using 1 2 3 eff by (metis option.sel)
  qed
qed

lemma write_loop_sim:
  "locals_ok l \<Longrightarrow> safe_run (flush_locals vt l) data \<Longrightarrow>
   map_option (\<lambda>(v, l'). undirty (flush_locals v l')) (write_loop vt l data)
   = map_option undirty (putchars (flush_locals vt l) data)"
proof (induction data arbitrary: vt l)
  case Nil
  show ?case by simp
next
  case (Cons c cs)
  let ?V = "flush_locals vt l"
  from Cons.prems(2) have okV: "cursor_ok ?V"
    and rest: "\<And>w. putchar_locked ?V c = Some w \<Longrightarrow> safe_run w cs"
    by simp_all
  show ?case
  proof (cases "escape_mode l = 0 \<and> printable c")
    case True
    from write_loop_fast[OF Cons.prems(1) okV, of c cs] True
    obtain vt' l' w d where w: "putchar_locked ?V c = Some w"
      and wl: "write_loop vt l (c # cs) = write_loop vt' l' cs"
      and lok: "locals_ok l'" and fl: "flush_locals vt' l' = w\<lparr>dirty := d\<rparr>"
      by blast
    have "safe_run (flush_locals vt' l') cs"
      unfolding fl safe_run_dirty by (rule rest[OF w])
    from Cons.IH[OF lok this]
    have "map_option (\<lambda>(v, l'). undirty (flush_locals v l')) (write_loop vt l (c # cs))
          = map_option undirty (putchars (w\<lparr>dirty := d\<rparr>) cs)"
      unfolding wl fl .
    also have "\<dots> = map_option undirty (putchars w cs)"
      by (rule putchars_dirty)
    finally show ?thesis
      by (simp add: w)
  next
    case False
    note wl = write_loop_slow[OF False, of vt cs]
    show ?thesis
    proof (cases "byte_step ?V c")
      case None
      then show ?thesis
        unfolding wl by (simp add: putchar_locked_def)
    next
      case (Some v3)
      have pl: "putchar_locked ?V c = Some (v3\<lparr>dirty := 1\<rparr>)"
        by (simp add: putchar_locked_def Some)
      have "safe_run (flush_locals v3 (reload_locals l v3)) cs"
        unfolding flush_reload using rest[OF pl] by (simp add: safe_run_dirty)
      from Cons.IH[OF locals_ok_reload[OF Cons.prems(1)] this]
      have "map_option (\<lambda>(v, l'). undirty (flush_locals v l')) (write_loop vt l (c # cs))
          = map_option undirty (putchars v3 cs)"
        unfolding wl Some flush_reload by simp
      also have "\<dots> = map_option undirty (putchars (v3\<lparr>dirty := 1\<rparr>) cs)"
        by (rule putchars_dirty[symmetric])
      finally show ?thesis
        by (simp add: pl)
    qed
  qed
qed

lemma write_locked_sim:
  assumes "safe_run vt data"
  shows "map_option undirty (write_locked vt data) = map_option undirty (putchars vt data)"
proof -
  let ?l = "rederive \<lparr>cx = cursor_x vt, cy = cursor_y vt, attr_cache = current_attr vt,
                        escape_mode = escape_state vt, cursor_ptr = 0, row_end = 0\<rparr>"
  have lok: "locals_ok ?l" by (simp add: locals_ok_def rederive_def)
  have fl: "flush_locals vt ?l = vt"
    by (cases vt) (simp add: flush_locals_def rederive_def)
  have "map_option undirty (write_locked vt data)
        = map_option (\<lambda>(v, l'). undirty (flush_locals v l')) (write_loop vt ?l data)"
    by (simp add: write_locked_def Let_def option.map_comp comp_def case_prod_unfold)
  also have "\<dots> = map_option undirty (putchars (flush_locals vt ?l) data)"
    by (rule write_loop_sim[OF lok]) (simp add: fl assms)
  finally show ?thesis by (simp add: fl)
qed

lemma after_printable:
  assumes "cursor_ok vt" "escape_state vt = 0" "printable c"
  shows "\<exists>w. putchar_locked vt c = Some w \<and> cursor_ok w \<and> escape_state w = 0"
  using assms putchar_locked_printable[OF assms]
  by (auto simp: Let_def cursor_ok_def VTERM_COLS_def VTERM_ROWS_def)

lemma safe_run_printable:
  "cursor_ok vt \<Longrightarrow> escape_state vt = 0 \<Longrightarrow> \<forall>c\<in>set data. printable c \<Longrightarrow> safe_run vt data"
proof (induction data arbitrary: vt)
  case Nil
  show ?case by simp
next
  case (Cons c cs)
  from after_printable[OF Cons.prems(1,2), of c] Cons.prems(3)
  obtain w where "putchar_locked vt c = Some w" "cursor_ok w" "escape_state w = 0"
    by auto
  with Cons show ?case by simp
qed

lemma write_locked_dirty: "write_locked vt data = Some w \<Longrightarrow> dirty w = 1"
  by (auto simp: write_locked_def Let_def)

lemma undirty_eq_set_dirty: "undirty w = undirty u \<Longrightarrow> w = u\<lparr>dirty := dirty w\<rparr>"
  by (cases w; cases u) (simp add: undirty_def)

lemma write_locked_from_putchars:
  assumes safe: "safe_run vt data" and run: "putchars vt data = Some u"
  shows "write_locked vt data = Some (u\<lparr>dirty := 1\<rparr>)"
proof -
  from write_locked_sim[OF safe] run
  obtain w where w: "write_locked vt data = Some w" and eq: "undirty w = undirty u"
    by (cases "write_locked vt data") auto
  from undirty_eq_set_dirty[OF eq] write_locked_dirty[OF w] show ?thesis
    using w by simp
qed

lemma write_locked_printable:
  assumes "cursor_ok vt" "escape_state vt = 0" "\<forall>c\<in>set data. printable c"
  shows "write_locked vt data = Some ((typed vt data)\<lparr>dirty := 1\<rparr>)"
  by (rule write_locked_from_putchars[OF safe_run_printable[OF assms] putchars_printable[OF assms]])


lemma fresh_vt_ok: "cursor_ok fresh_vt" "escape_state fresh_vt = 0"
  by (simp_all add: fresh_vt_def cursor_ok_def VTERM_COLS_def VTERM_ROWS_def)

lemmas run_defs = fresh_vt_def write_locked_def rederive_def vterm_handle_escape_def
  vterm_putchar_internal_def csi_final_def vterm_apply_sgr_def sgr_is_reset_def sgr_loop.simps
  sgr_parse_num_def skip_semi_def skip_zero_def is_digit_def is_alpha_def ord_def wrap32_def
  VTERM_ATTR_def VTERM_ATTR_FG_def VTERM_ATTR_BG_def VTERM_BRIGHT_def VTERM_DEFAULT_ATTR_def
  VTERM_WHITE_def VTERM_BLACK_def VTERM_COLS_def VTERM_ROWS_def cell_index_def next_row_def
  c_str_def csi_count_def atoi_def scan_int_def split_sign_def isspace_def saturate_def
  INT_MAX_def INT_MIN_def putchar_locked_def byte_step_def flush_locals_def reload_locals_def
  cursor_ok_def blank_mem_def blank_cell_def Let_def

text \<open>
  C1. For a terminal whose cursor is on the grid and whose escape parser is in its
  normal state, writing printable bytes (32 to 126), in one \<^verbatim>\<open>vterm_write\<close> or byte by
  byte with \<^verbatim>\<open>vterm_putchar\<close>, leaves the grid as \<open>typed\<close> describes: the characters lie
  left to right, top to bottom from the cursor on a page whose rows are \<open>VTERM_COLS\<close>
  wide, the grid shows the last \<open>VTERM_ROWS\<close> rows of that page once the cursor has
  passed the last row, every other cell keeps its content (moved up with the scroll)
  and the rows that scrolled in are blank.
\<close>

theorem C1_printable_bytes_fill_the_grid:
  assumes "cursor_ok vt" "escape_state vt = 0" "list_all printable data"
  shows "write_locked vt data = Some ((typed vt data)\<lparr>dirty := 1\<rparr>) \<and>
         putchars vt data = Some (typed vt data)"
proof -
  have p: "\<forall>c\<in>set data. printable c"
    using assms(3) by (simp add: list_all_iff)
  show ?thesis
    using write_locked_printable[OF assms(1,2) p] putchars_printable[OF assms(1,2) p] by simp
qed

theorem C1_witness:
  "cursor_ok fresh_vt \<and> escape_state fresh_vt = 0 \<and> list_all printable ''Hi'' \<and>
   write_locked fresh_vt ''Hi'' = Some ((typed fresh_vt ''Hi'')\<lparr>dirty := 1\<rparr>) \<and>
   putchars fresh_vt ''Hi'' = Some (typed fresh_vt ''Hi'')"
proof -
  have p: "list_all printable ''Hi''"
    by (simp add: printable_def ord_def)
  from C1_printable_bytes_fill_the_grid[OF fresh_vt_ok p] fresh_vt_ok p show ?thesis
    by blast
qed

section \<open>Scrolling\<close>

lemma scroll_cells_apply:
  "scroll_cells cs i =
     (if 0 \<le> i \<and> i < (VTERM_ROWS - 1) * VTERM_COLS then cs (i + VTERM_COLS)
      else if (VTERM_ROWS - 1) * VTERM_COLS \<le> i \<and> i < GRID then blank_cell
      else cs i)"
  by (simp add: scroll_cells_def fill_range_def move_cells_def GRID_def VTERM_COLS_def VTERM_ROWS_def)

lemma vterm_scroll_cells: "cells (vterm_scroll u) = scroll_cells (cells u)"
  by (simp add: vterm_scroll_def scroll_cells_def)

lemma next_row_at_bottom:
  "cursor_y u = VTERM_ROWS - 1 \<Longrightarrow> next_row u = vterm_scroll (u\<lparr>cursor_x := 0, cursor_y := VTERM_ROWS\<rparr>)"
  by (simp add: next_row_def Let_def wrap32_def VTERM_ROWS_def)

lemma overflow_by_less_than_a_row:
  assumes "escape_state vt = 0" "\<forall>c\<in>set data. printable c"
    and len: "int (length data) = GRID + k" and k: "1 \<le> k" "k < VTERM_COLS"
  shows "write_locked (vterm_clear_internal vt) data = Some (typed (vterm_clear_internal vt) data)"
    and "putchars (vterm_clear_internal vt) data = Some (typed (vterm_clear_internal vt) data)"
    and "\<forall>i. 0 \<le> i \<and> i < (VTERM_ROWS - 1) * VTERM_COLS \<longrightarrow>
           cells (typed (vterm_clear_internal vt) data) i
             = \<lparr>ch = data ! nat (i + VTERM_COLS), attr = VTERM_DEFAULT_ATTR\<rparr>"
    and "\<forall>x. 0 \<le> x \<and> x < k \<longrightarrow>
           cells (typed (vterm_clear_internal vt) data) ((VTERM_ROWS - 1) * VTERM_COLS + x)
             = \<lparr>ch = data ! nat (GRID + x), attr = VTERM_DEFAULT_ATTR\<rparr>"
    and "\<forall>x. k \<le> x \<and> x < VTERM_COLS \<longrightarrow>
           cells (typed (vterm_clear_internal vt) data) ((VTERM_ROWS - 1) * VTERM_COLS + x) = blank_cell"
    and "cursor_x (typed (vterm_clear_internal vt) data) = k"
    and "cursor_y (typed (vterm_clear_internal vt) data) = VTERM_ROWS - 1"
proof -
  let ?V = "vterm_clear_internal vt"
  have ok: "cursor_ok ?V" "escape_state ?V = 0"
    using assms(1) by (simp_all add: vterm_clear_internal_def cursor_ok_def VTERM_COLS_def VTERM_ROWS_def)
  have ne: "data \<noteq> []" using len k by (auto simp: GRID_def VTERM_COLS_def VTERM_ROWS_def)
  have idx: "cell_index ?V = 0" by (simp add: cell_index_def vterm_clear_internal_def)
  have tot: "4736 + k = 128 * 37 + k" by simp
  have d: "(4736 + k) div 128 = 37"
    using k by (intro int_div_pos_eq[OF tot]) (simp_all add: VTERM_COLS_def)
  have m: "(4736 + k) mod 128 = k"
    using k by (intro int_mod_pos_eq[OF tot]) (simp_all add: VTERM_COLS_def)
  have sc: "scrolled 0 (GRID + k) = 1"
    by (simp add: scrolled_def GRID_def VTERM_COLS_def VTERM_ROWS_def d)
  have dirty1: "(typed ?V data)\<lparr>dirty := 1\<rparr> = typed ?V data"
    using ne by (simp add: typed_def Let_def)
  show "write_locked ?V data = Some (typed ?V data)"
    using write_locked_printable[OF ok assms(2)] dirty1 by simp
  show "putchars ?V data = Some (typed ?V data)"
    by (rule putchars_printable[OF ok assms(2)])
  have cs: "cells (typed ?V data) = shown ?V data 1"
    by (simp add: typed_def Let_def idx len sc)
  have attr: "current_attr ?V = VTERM_DEFAULT_ATTR" by (simp add: vterm_clear_internal_def)
  show "\<forall>i. 0 \<le> i \<and> i < (VTERM_ROWS - 1) * VTERM_COLS \<longrightarrow>
           cells (typed ?V data) i = \<lparr>ch = data ! nat (i + VTERM_COLS), attr = VTERM_DEFAULT_ATTR\<rparr>"
    using k by (simp add: cs shown_def page_def idx len attr GRID_def VTERM_COLS_def VTERM_ROWS_def)
  show "\<forall>x. 0 \<le> x \<and> x < k \<longrightarrow>
           cells (typed ?V data) ((VTERM_ROWS - 1) * VTERM_COLS + x)
             = \<lparr>ch = data ! nat (GRID + x), attr = VTERM_DEFAULT_ATTR\<rparr>"
    using k by (simp add: cs shown_def page_def idx len attr GRID_def VTERM_COLS_def VTERM_ROWS_def)
  show "\<forall>x. k \<le> x \<and> x < VTERM_COLS \<longrightarrow>
           cells (typed ?V data) ((VTERM_ROWS - 1) * VTERM_COLS + x) = blank_cell"
    using k by (simp add: cs shown_def page_def idx len attr GRID_def VTERM_COLS_def VTERM_ROWS_def)
  show "cursor_x (typed ?V data) = k"
    by (simp add: typed_def Let_def idx len GRID_def VTERM_COLS_def VTERM_ROWS_def m)
  show "cursor_y (typed ?V data) = VTERM_ROWS - 1"
    by (simp add: typed_def Let_def idx len sc) (simp add: GRID_def VTERM_COLS_def VTERM_ROWS_def d)
qed

text \<open>
  C3. \<^verbatim>\<open>vterm_scroll\<close> moves rows 1 to \<open>VTERM_ROWS - 1\<close> up by one row, blanks the last
  row and leaves the cursor in the last row, and a cursor that leaves the last row
  scrolls. Writing \<open>VTERM_ROWS * VTERM_COLS + k\<close> printable characters with
  \<open>1 \<le> k < VTERM_COLS\<close> into a cleared terminal leaves rows 0 to \<open>VTERM_ROWS - 2\<close>
  showing the characters from offset \<open>VTERM_COLS\<close> on (the first row of the input is
  gone), the last \<open>k\<close> characters at the start of the last row, blanks after them, and
  the cursor behind them.
\<close>

theorem C3_scroll_drops_the_oldest_row:
  assumes "escape_state vt = 0" "list_all printable data"
    and "int (length data) = GRID + k" and "1 \<le> k" "k < VTERM_COLS"
  shows "cells (vterm_scroll u) = scroll_cells (cells u) \<and>
         cursor_y (vterm_scroll u) = VTERM_ROWS - 1 \<and>
         (\<forall>i. scroll_cells cs i =
               (if 0 \<le> i \<and> i < (VTERM_ROWS - 1) * VTERM_COLS then cs (i + VTERM_COLS)
                else if (VTERM_ROWS - 1) * VTERM_COLS \<le> i \<and> i < GRID then blank_cell
                else cs i)) \<and>
         (cursor_y u = VTERM_ROWS - 1 \<longrightarrow>
            next_row u = vterm_scroll (u\<lparr>cursor_x := 0, cursor_y := VTERM_ROWS\<rparr>)) \<and>
         (let v = typed (vterm_clear_internal vt) data in
            write_locked (vterm_clear_internal vt) data = Some v \<and>
            putchars (vterm_clear_internal vt) data = Some v \<and>
            (\<forall>i. 0 \<le> i \<and> i < (VTERM_ROWS - 1) * VTERM_COLS \<longrightarrow>
                 cells v i = \<lparr>ch = data ! nat (i + VTERM_COLS), attr = VTERM_DEFAULT_ATTR\<rparr>) \<and>
            (\<forall>x. 0 \<le> x \<and> x < k \<longrightarrow>
                 cells v ((VTERM_ROWS - 1) * VTERM_COLS + x)
                   = \<lparr>ch = data ! nat (GRID + x), attr = VTERM_DEFAULT_ATTR\<rparr>) \<and>
            (\<forall>x. k \<le> x \<and> x < VTERM_COLS \<longrightarrow>
                 cells v ((VTERM_ROWS - 1) * VTERM_COLS + x) = blank_cell) \<and>
            cursor_x v = k \<and> cursor_y v = VTERM_ROWS - 1)"
proof -
  have "cursor_y (vterm_scroll u) = VTERM_ROWS - 1"
    by (simp add: vterm_scroll_def)
  moreover have "cursor_y u = VTERM_ROWS - 1 \<longrightarrow>
            next_row u = vterm_scroll (u\<lparr>cursor_x := 0, cursor_y := VTERM_ROWS\<rparr>)"
    using next_row_at_bottom by blast
  moreover have p: "\<forall>c\<in>set data. printable c"
    using assms(2) by (simp add: list_all_iff)
  ultimately show ?thesis
    unfolding Let_def
    using overflow_by_less_than_a_row[OF assms(1) p assms(3,4,5)]
      vterm_scroll_cells[of u] scroll_cells_apply[of cs]
    by blast
qed

theorem C3_witness:
  "escape_state fresh_vt = 0 \<and> list_all printable (replicate 4737 (CHR ''A'')) \<and>
   int (length (replicate 4737 (CHR ''A''))) = GRID + 1 \<and> (1 :: int) \<le> 1 \<and> 1 < VTERM_COLS \<and>
   (let v = typed (vterm_clear_internal fresh_vt) (replicate 4737 (CHR ''A'')) in
      write_locked (vterm_clear_internal fresh_vt) (replicate 4737 (CHR ''A'')) = Some v \<and>
      cells v ((VTERM_ROWS - 1) * VTERM_COLS + 0)
        = \<lparr>ch = replicate 4737 (CHR ''A'') ! nat (GRID + 0), attr = VTERM_DEFAULT_ATTR\<rparr> \<and>
      cells v ((VTERM_ROWS - 1) * VTERM_COLS + 1) = blank_cell \<and>
      cursor_x v = 1 \<and> cursor_y v = VTERM_ROWS - 1)"
proof -
  have h1: "escape_state fresh_vt = 0"
    by (rule fresh_vt_ok)
  have h2: "list_all printable (replicate 4737 (CHR ''A''))"
    by (simp add: list_all_iff printable_def ord_def)
  have h3: "int (length (replicate 4737 (CHR ''A''))) = GRID + 1"
    by (simp add: GRID_def VTERM_COLS_def VTERM_ROWS_def)
  have h4: "(1 :: int) \<le> 1" by simp
  have h5: "1 < VTERM_COLS" by (simp add: VTERM_COLS_def)
  have in0: "(0 :: int) \<le> 0 \<and> (0 :: int) < 1" by simp
  have in1: "(1 :: int) \<le> 1 \<and> 1 < VTERM_COLS" by (simp add: VTERM_COLS_def)
  from C3_scroll_drops_the_oldest_row[OF h1 h2 h3 h4 h5, of fresh_vt blank_mem] in0 in1
  have "let v = typed (vterm_clear_internal fresh_vt) (replicate 4737 (CHR ''A'')) in
      write_locked (vterm_clear_internal fresh_vt) (replicate 4737 (CHR ''A'')) = Some v \<and>
      cells v ((VTERM_ROWS - 1) * VTERM_COLS + 0)
        = \<lparr>ch = replicate 4737 (CHR ''A'') ! nat (GRID + 0), attr = VTERM_DEFAULT_ATTR\<rparr> \<and>
      cells v ((VTERM_ROWS - 1) * VTERM_COLS + 1) = blank_cell \<and>
      cursor_x v = 1 \<and> cursor_y v = VTERM_ROWS - 1"
    unfolding Let_def by blast
  with h1 h2 h3 h4 h5 show ?thesis
    by blast
qed

text \<open>
  The claim C3 as stated also covers \<open>k = VTERM_COLS\<close>. Writing
  \<open>VTERM_ROWS * VTERM_COLS + VTERM_COLS\<close> = 4864 characters into a cleared terminal
  scrolls twice: the last row is blank and the cursor is at its start, so the final
  row does not hold \<open>k\<close> characters.
\<close>

theorem C3_counterexample_full_row_overflow:
  "map_option (\<lambda>v. (cells v ((VTERM_ROWS - 1) * VTERM_COLS), cursor_x v, cursor_y v))
     (write_locked (vterm_clear_internal fresh_vt) (replicate 4864 (CHR ''A'')))
   = Some (blank_cell, 0, 36)"
proof -
  have ok: "cursor_ok (vterm_clear_internal fresh_vt)" "escape_state (vterm_clear_internal fresh_vt) = 0"
    by (simp_all add: vterm_clear_internal_def fresh_vt_def cursor_ok_def VTERM_COLS_def VTERM_ROWS_def)
  have pr: "\<forall>c\<in>set (replicate 4864 (CHR ''A'')). printable c"
    by (simp add: printable_def ord_def)
  show ?thesis
    unfolding write_locked_printable[OF ok pr]
    by (simp add: typed_def shown_def page_def scrolled_def cell_index_def vterm_clear_internal_def
        GRID_def VTERM_COLS_def VTERM_ROWS_def Let_def)
qed


section \<open>The cursor invariant\<close>

text \<open>
  C4. The claim: every operation keeps \<open>0 \<le> cursor_x < VTERM_COLS\<close> and
  \<open>0 \<le> cursor_y < VTERM_ROWS\<close>. In the code, a newline followed by
  \<^verbatim>\<open>ESC [ 2147483647 B\<close>, written to a cleared terminal, leaves \<open>cursor_y\<close> at
  \<open>- 2147483648\<close>: \<^verbatim>\<open>cursor_y += n\<close> wraps around and the clamp that follows only tests
  \<^verbatim>\<open>cursor_y >= VTERM_ROWS\<close>.
\<close>

theorem C4_cursor_down_overflows:
  "cursor_ok fresh_vt \<and>
   map_option (\<lambda>v. (cursor_x v, cursor_y v, cursor_ok v))
     (write_locked fresh_vt (CHR 0x0A # CHR 0x1B # ''[2147483647B''))
     = Some (0, - 2147483648, False) \<and>
   map_option (\<lambda>v. (cursor_x v, cursor_y v, cursor_ok v))
     (putchars fresh_vt (CHR 0x0A # CHR 0x1B # ''[2147483647B''))
     = Some (0, - 2147483648, False)"
  by (simp add: run_defs)


section \<open>Batched and byte-at-a-time writes agree\<close>

lemma view_undirty: "undirty w = undirty u \<Longrightarrow> vt_view w = vt_view u"
  by (cases w; cases u) (simp add: undirty_def vt_view_def)


text \<open>
  Whenever the cursor is on the grid before each byte is processed, the terminal
  after one \<^verbatim>\<open>vterm_write\<close> of \<open>data\<close> and the terminal after one \<^verbatim>\<open>vterm_putchar\<close> for
  each byte have the same cells, cursor, current attribute, parser state and sent
  bytes (both calls fail to return on the same inputs).
\<close>

lemma write_equals_putchars_on_grid:
  assumes "safe_run vt data"
  shows "map_option vt_view (write_locked vt data) = map_option vt_view (putchars vt data)"
proof -
  have "map_option vt_view r = map_option vt_view r'"
    if "map_option undirty r = map_option undirty r'" for r r'
    using that by (cases r; cases r') (auto dest: view_undirty)
  from this[OF write_locked_sim[OF assms]] show ?thesis .
qed

lemma write_equals_putchars_on_grid_example:
  "safe_run fresh_vt (''A'' @ CHR 0x1B # ''[2;3H'' @ ''B'' @ [CHR 0x0A]) \<and>
   map_option vt_view (write_locked fresh_vt (''A'' @ CHR 0x1B # ''[2;3H'' @ ''B'' @ [CHR 0x0A]))
   = map_option vt_view (putchars fresh_vt (''A'' @ CHR 0x1B # ''[2;3H'' @ ''B'' @ [CHR 0x0A]))"
proof -
  have s: "safe_run fresh_vt (''A'' @ CHR 0x1B # ''[2;3H'' @ ''B'' @ [CHR 0x0A])"
    by (simp add: run_defs sscanf_d_d_def)
  from write_equals_putchars_on_grid[OF s] s show ?thesis
    by blast
qed


text \<open>
  C5. The claim: for every state and every byte string, \<^verbatim>\<open>vterm_write\<close> leaves the
  cells, the cursor, the attribute and the parser state as one \<^verbatim>\<open>vterm_putchar\<close> for each
  byte does. In the code the two differ once \<open>cursor_x\<close> is outside the grid: the
  batched write tests the cached cell pointer against the end of the row where
  \<^verbatim>\<open>vterm_putchar\<close> tests \<open>cursor_x\<close> against \<open>VTERM_COLS\<close>. From a cleared terminal, the
  bytes \<^verbatim>\<open>a ESC [ 2147483647 C ESC [ 2147483515 D a b\<close> take \<open>cursor_x\<close> to 133 by two
  wrap-arounds of \<^verbatim>\<open>cursor_x += n\<close> and \<^verbatim>\<open>cursor_x -= n\<close>; the batched write then puts the
  \<open>b\<close> into cell 134 and the byte-at-a-time writes put it into cell 128.
\<close>

theorem C5_write_and_putchar_differ_off_grid:
  "map_option (\<lambda>v. (ch (cells v 128), ch (cells v 134)))
     (write_locked fresh_vt
        (''a'' @ CHR 0x1B # ''[2147483647C'' @ CHR 0x1B # ''[2147483515Dab''))
     = Some (CHR '' '', CHR ''b'') \<and>
   map_option (\<lambda>v. (ch (cells v 128), ch (cells v 134)))
     (putchars fresh_vt
        (''a'' @ CHR 0x1B # ''[2147483647C'' @ CHR 0x1B # ''[2147483515Dab''))
     = Some (CHR ''b'', CHR '' '')"
  by (simp add: run_defs)


section \<open>Complete CSI sequences\<close>

lemma collect_byte:
  assumes "escape_state vt \<noteq> 0" "escape_state vt \<noteq> 1" "\<not> is_alpha c" "length (escape_buf vt) < 31"
  shows "putchar_locked vt c = Some (vt\<lparr>escape_buf := escape_buf vt @ [c], dirty := 1\<rparr>)"
  using assms by (cases vt) (simp add: putchar_locked_def byte_step_def vterm_handle_escape_def Let_def)

lemma collect_params:
  assumes "escape_state vt \<noteq> 0" "escape_state vt \<noteq> 1" "\<forall>c\<in>set ps. \<not> is_alpha c"
    "length (escape_buf vt) + length ps \<le> 31"
  shows "putchars vt ps = Some (vt\<lparr>escape_buf := escape_buf vt @ ps,
                                   dirty := (if ps = [] then dirty vt else 1)\<rparr>)"
  using assms
proof (induction ps arbitrary: vt)
  case Nil
  show ?case by simp
next
  case (Cons c cs)
  let ?v = "vt\<lparr>escape_buf := escape_buf vt @ [c], dirty := 1\<rparr>"
  have step: "putchar_locked vt c = Some ?v"
    using Cons.prems by (intro collect_byte) simp_all
  have rest: "putchars ?v cs = Some (?v\<lparr>escape_buf := escape_buf ?v @ cs,
                                   dirty := (if cs = [] then dirty ?v else 1)\<rparr>)"
    using Cons.prems by (intro Cons.IH) simp_all
  have same: "?v\<lparr>escape_buf := escape_buf ?v @ cs, dirty := (if cs = [] then dirty ?v else 1)\<rparr>
              = vt\<lparr>escape_buf := escape_buf vt @ c # cs, dirty := 1\<rparr>"
    by (cases vt) simp
  have "putchars vt (c # cs) = putchars ?v cs"
    by (simp add: step)
  then show ?case
    unfolding rest same by simp
qed

lemma safe_collect:
  assumes "escape_state vt \<noteq> 0" "escape_state vt \<noteq> 1" "\<forall>c\<in>set ps. \<not> is_alpha c"
    "length (escape_buf vt) + length ps \<le> 31" "cursor_ok vt"
  shows "safe_run vt ps"
  using assms
proof (induction ps arbitrary: vt)
  case Nil
  show ?case by simp
next
  case (Cons c cs)
  let ?v = "vt\<lparr>escape_buf := escape_buf vt @ [c], dirty := 1\<rparr>"
  have step: "putchar_locked vt c = Some ?v"
    using Cons.prems by (intro collect_byte) simp_all
  have "safe_run ?v cs"
    using Cons.prems by (intro Cons.IH) (simp_all add: cursor_ok_def)
  then show ?case
    using Cons.prems(5) by (simp add: step)
qed

lemma safe_run_append:
  "safe_run vt (xs @ ys) =
     (safe_run vt xs \<and> (case putchars vt xs of None \<Rightarrow> True | Some v \<Rightarrow> safe_run v ys))"
  by (induction xs arbitrary: vt) (auto split: option.splits)

lemma c_str_clean: "\<forall>c\<in>set ps. c \<noteq> CHR 0x00 \<Longrightarrow> c_str ps = ps"
  by (simp add: c_str_def)

lemma csi_open:
  assumes "escape_state vt = 0"
  shows "putchars vt [CHR 0x1B, CHR ''[''] = Some (vt\<lparr>escape_state := 2, escape_buf := [], dirty := 1\<rparr>)"
  using assms by (cases vt) (simp add: putchar_locked_def byte_step_def vterm_handle_escape_def)

lemma csi_close:
  assumes "escape_state vt = 2" "is_alpha fin" "length (escape_buf vt) \<le> 30"
    "\<forall>c\<in>set (escape_buf vt). c \<noteq> CHR 0x00" "escape_buf vt = [] \<or> hd (escape_buf vt) \<noteq> CHR ''?''"
  shows "putchar_locked vt fin =
           map_option (\<lambda>w. w\<lparr>escape_state := 0, escape_buf := [], dirty := 1\<rparr>)
             (csi_final vt fin (escape_buf vt))"
  using assms
  by (cases "csi_final vt fin (escape_buf vt)")
     (auto simp add: putchar_locked_def byte_step_def vterm_handle_escape_def Let_def c_str_clean)

lemma csi_sequence:
  assumes idle: "escape_state vt = 0" and ps: "\<forall>c\<in>set ps. \<not> is_alpha c \<and> c \<noteq> CHR 0x00"
    and len: "length ps \<le> 30" and fin: "is_alpha fin" and q: "ps = [] \<or> hd ps \<noteq> CHR ''?''"
  shows "putchars vt (CHR 0x1B # CHR ''['' # ps @ [fin]) =
           map_option (\<lambda>w. w\<lparr>escape_state := 0, escape_buf := [], dirty := 1\<rparr>)
             (csi_final (vt\<lparr>escape_state := 2, escape_buf := ps, dirty := 1\<rparr>) fin ps)"
proof -
  let ?o = "vt\<lparr>escape_state := 2, escape_buf := [], dirty := 1\<rparr>"
  let ?c = "vt\<lparr>escape_state := 2, escape_buf := ps, dirty := 1\<rparr>"
  have split: "CHR 0x1B # CHR ''['' # ps @ [fin] = [CHR 0x1B, CHR ''[''] @ ps @ [fin]"
    by simp
  have coll: "putchars ?o ps = Some ?c"
    using collect_params[of ?o ps] ps len by (cases vt) auto
  have close: "putchar_locked ?c fin =
           map_option (\<lambda>w. w\<lparr>escape_state := 0, escape_buf := [], dirty := 1\<rparr>) (csi_final ?c fin ps)"
    using csi_close[of ?c fin] ps len fin q by simp
  show ?thesis
    unfolding split
    by (simp only: putchars_append csi_open[OF idle] coll option.case)
       (simp add: close split: option.splits)
qed

lemma safe_csi_sequence:
  assumes idle: "escape_state vt = 0" and ps: "\<forall>c\<in>set ps. \<not> is_alpha c \<and> c \<noteq> CHR 0x00"
    and len: "length ps \<le> 30" and ok: "cursor_ok vt"
  shows "safe_run vt (CHR 0x1B # CHR ''['' # ps @ [fin])"
proof -
  let ?o = "vt\<lparr>escape_state := 2, escape_buf := [], dirty := 1\<rparr>"
  let ?c = "vt\<lparr>escape_state := 2, escape_buf := ps, dirty := 1\<rparr>"
  have split: "CHR 0x1B # CHR ''['' # ps @ [fin] = [CHR 0x1B, CHR ''[''] @ ps @ [fin]"
    by simp
  have coll: "putchars ?o ps = Some ?c"
    using collect_params[of ?o ps] ps len by (cases vt) auto
  have s1: "safe_run vt [CHR 0x1B, CHR ''['']"
    using idle ok by (cases vt) (simp add: putchar_locked_def byte_step_def vterm_handle_escape_def cursor_ok_def)
  have s2: "safe_run ?o ps"
    using safe_collect[of ?o ps] ps len ok by (simp add: cursor_ok_def)
  have s3: "safe_run ?c [fin]"
    using ok by (simp add: cursor_ok_def split: option.splits)
  show ?thesis
    unfolding split
    by (simp only: safe_run_append s1 csi_open[OF idle] option.case s2 coll s3 simp_thms)
qed

section \<open>Decimal numbers\<close>

lemma small_digit:
  "d < 10 \<Longrightarrow> d = 0 \<or> d = 1 \<or> d = 2 \<or> d = 3 \<or> d = 4 \<or> d = 5 \<or> d = 6 \<or> d = 7 \<or> d = 8 \<or> d = (9 :: nat)"
  by arith

lemma ord_digit_char: "d < 10 \<Longrightarrow> ord (digit_char d) = 48 + int d"
  using small_digit[of d] by (auto simp: digit_char_def ord_def)

lemma digit_char_is_digit: "d < 10 \<Longrightarrow> is_digit (digit_char d)"
  by (simp add: is_digit_def ord_digit_char)

lemma dec_nat_digits: "\<forall>c\<in>set (dec_nat n). is_digit c"
proof (induction n rule: dec_nat.induct)
  case (1 n)
  show ?case
  proof (cases "n < 10")
    case True
    then show ?thesis by (subst dec_nat.simps) (simp add: digit_char_is_digit)
  next
    case False
    then show ?thesis using 1 by (subst dec_nat.simps) (simp add: digit_char_is_digit)
  qed
qed

lemma dec_nat_nonempty: "dec_nat n \<noteq> []"
  by (subst dec_nat.simps) simp

lemma digits_val_snoc: "digits_val acc (xs @ [d]) = digits_val acc xs * 10 + (ord d - 48)"
  by (induction xs arbitrary: acc) simp_all

lemma digits_val_dec_nat: "digits_val 0 (dec_nat n) = int n"
proof (induction n rule: dec_nat.induct)
  case (1 n)
  show ?case
  proof (cases "n < 10")
    case True
    then show ?thesis by (subst dec_nat.simps) (simp add: ord_digit_char)
  next
    case False
    have "int (n div 10) * 10 + int (n mod 10) = int n"
      by (metis mult.commute of_nat_add of_nat_mult of_nat_numeral div_mult_mod_eq mult.commute)
    then show ?thesis
      using False 1 by (subst dec_nat.simps) (simp add: digits_val_snoc ord_digit_char)
  qed
qed

lemma dec_nat_length: "0 < k \<Longrightarrow> n < 10 ^ k \<Longrightarrow> length (dec_nat n) \<le> k"
proof (induction n arbitrary: k rule: dec_nat.induct)
  case (1 n)
  show ?case
  proof (cases "n < 10")
    case True
    then show ?thesis using 1(2) by (subst dec_nat.simps) simp
  next
    case False
    then obtain j where k: "k = Suc j" "0 < j"
      using 1(2,3) by (cases k; cases "k - 1") auto
    have "n div 10 < 10 ^ j"
      using 1(3) k by (simp add: less_mult_imp_div_less)
    from 1(1)[OF False k(2) this] show ?thesis
      using False k by (subst dec_nat.simps) simp
  qed
qed

lemma digit_is_plain:
  assumes "is_digit c"
  shows "\<not> is_alpha c" "c \<noteq> CHR 0x00" "\<not> isspace c" "c \<noteq> CHR ''-''" "c \<noteq> CHR ''+''"
    "c \<noteq> CHR ''?''" "c \<noteq> CHR '';''"
  using assms by (auto simp: is_digit_def is_alpha_def isspace_def ord_def)


section \<open>Colours\<close>

lemma mask15: "(15 :: 8 word) = mask 4" by (simp add: mask_eq_exp_minus_1)

lemma fg_attr: "VTERM_ATTR_FG (VTERM_ATTR f b) = f AND 0x0F"
  unfolding VTERM_ATTR_FG_def VTERM_ATTR_def mask15
  by (rule bit_word_eqI) (auto simp add: bit_simps)

lemma colour_cases:
  assumes "30 \<le> k" "k \<le> 37"
  shows "k = 30 \<or> k = 31 \<or> k = 32 \<or> k = 33 \<or> k = 34 \<or> k = 35 \<or> k = 36 \<or> k = (37 :: int)"
  using assms by arith

lemma fg_idem: "VTERM_ATTR_FG a AND 0x0F = VTERM_ATTR_FG a"
  unfolding VTERM_ATTR_FG_def by (simp add: and.assoc)

lemma fg_of_fg: "VTERM_ATTR_FG (VTERM_ATTR (VTERM_ATTR_FG a) b) = VTERM_ATTR_FG a"
  by (simp add: fg_attr fg_idem)

lemma colour_fg:
  assumes "30 \<le> k" "k \<le> 37"
  shows "VTERM_ATTR_FG (VTERM_ATTR (word_of_int (k - 30)) b) = word_of_int (k - 30)"
    and "VTERM_ATTR_FG (VTERM_ATTR (word_of_int (k - 30) OR VTERM_BRIGHT) b)
           = word_of_int (k - 30) OR VTERM_BRIGHT"
    and "(word_of_int (k - 30) :: 8 word) OR VTERM_BRIGHT OR VTERM_BRIGHT
           = word_of_int (k - 30) OR VTERM_BRIGHT"
  using colour_cases[OF assms] by (auto simp add: fg_attr VTERM_BRIGHT_def)

lemma keeps_fg_code:
  assumes "keeps_fg c"
  shows "fst (sgr_code c (b, a)) = b"
    and "VTERM_ATTR_FG (snd (sgr_code c (b, a))) = VTERM_ATTR_FG a"
  using assms by (auto simp add: sgr_code_def Let_def keeps_fg_def keeps_colour_def fg_of_fg)

lemma keeps_fg_fold:
  assumes "list_all keeps_fg m"
  shows "fst (foldl (\<lambda>s c. sgr_code c s) (b, a) m) = b \<and>
         VTERM_ATTR_FG (snd (foldl (\<lambda>s c. sgr_code c s) (b, a) m)) = VTERM_ATTR_FG a"
  using assms
proof (induction m arbitrary: b a)
  case Nil
  show ?case by simp
next
  case (Cons c m)
  obtain b' a' where s: "sgr_code c (b, a) = (b', a')" by (cases "sgr_code c (b, a)")
  have c: "keeps_fg c" and m: "list_all keeps_fg m" using Cons.prems by simp_all
  from keeps_fg_code[OF c, of b a] s have "b' = b" "VTERM_ATTR_FG a' = VTERM_ATTR_FG a"
    by simp_all
  with Cons.IH[OF m, of b' a'] show ?case by (simp add: s)
qed

lemma bold_fg:
  "VTERM_ATTR_FG (VTERM_ATTR (VTERM_ATTR_FG a OR VTERM_BRIGHT) b) = VTERM_ATTR_FG a OR VTERM_BRIGHT"
  by (simp add: fg_attr bit.conj_disj_distrib2 fg_idem VTERM_BRIGHT_def)

lemma bold_code:
  "fst (sgr_code 1 (b, a)) = True"
  "VTERM_ATTR_FG (snd (sgr_code 1 (b, a))) = VTERM_ATTR_FG a OR VTERM_BRIGHT"
  by (simp_all add: sgr_code_def Let_def bold_fg)

lemma colour_code:
  assumes "30 \<le> k" "k \<le> 37"
  shows "fst (sgr_code k (b, a)) = b"
    and "VTERM_ATTR_FG (snd (sgr_code k (b, a)))
           = (if b then word_of_int (k - 30) OR VTERM_BRIGHT else word_of_int (k - 30))"
  using assms colour_fg[OF assms] by (simp_all add: sgr_code_def Let_def)

lemma keeps_fg_tail:
  assumes "list_all keeps_fg m"
  shows "fst (foldl (\<lambda>s c. sgr_code c s) s m) = fst s"
    and "VTERM_ATTR_FG (snd (foldl (\<lambda>s c. sgr_code c s) s m)) = VTERM_ATTR_FG (snd s)"
  using keeps_fg_fold[OF assms, of "fst s" "snd s"] by simp_all

lemma bold_step:
  "fst (sgr_code 1 s) = True"
  "VTERM_ATTR_FG (snd (sgr_code 1 s)) = VTERM_ATTR_FG (snd s) OR VTERM_BRIGHT"
  using bold_code[of "fst s" "snd s"] by simp_all

lemma colour_step:
  assumes "30 \<le> k" "k \<le> 37"
  shows "fst (sgr_code k s) = fst s"
    and "VTERM_ATTR_FG (snd (sgr_code k s))
           = (if fst s then word_of_int (k - 30) OR VTERM_BRIGHT else word_of_int (k - 30))"
  using colour_code[OF assms, of "fst s" "snd s"] by simp_all

lemma or_bright_twice: "(w :: 8 word) OR VTERM_BRIGHT OR VTERM_BRIGHT = w OR VTERM_BRIGHT"
  by (simp add: or.assoc)

lemma keeps_colour_step:
  assumes "keeps_colour c"
  shows "fst s \<longrightarrow> fst (sgr_code c s)"
    and "VTERM_ATTR_FG (snd (sgr_code c s)) = VTERM_ATTR_FG (snd s) \<or>
         VTERM_ATTR_FG (snd (sgr_code c s)) = VTERM_ATTR_FG (snd s) OR VTERM_BRIGHT"
proof -
  show "fst s \<longrightarrow> fst (sgr_code c s)"
  proof (cases "c = 1")
    case True
    then show ?thesis by (simp add: bold_step)
  next
    case False
    then have "keeps_fg c" using assms by (simp add: keeps_fg_def)
    from keeps_fg_code(1)[OF this, of "fst s" "snd s"] show ?thesis by simp
  qed
  show "VTERM_ATTR_FG (snd (sgr_code c s)) = VTERM_ATTR_FG (snd s) \<or>
        VTERM_ATTR_FG (snd (sgr_code c s)) = VTERM_ATTR_FG (snd s) OR VTERM_BRIGHT"
  proof (cases "c = 1")
    case True
    then show ?thesis by (simp add: bold_step)
  next
    case False
    then have "keeps_fg c" using assms by (simp add: keeps_fg_def)
    from keeps_fg_code(2)[OF this, of "fst s" "snd s"] show ?thesis by simp
  qed
qed

lemma keeps_colour_tail:
  assumes "list_all keeps_colour m"
  shows "fst s \<longrightarrow> fst (foldl (\<lambda>s c. sgr_code c s) s m)"
    and "VTERM_ATTR_FG (snd (foldl (\<lambda>s c. sgr_code c s) s m)) = VTERM_ATTR_FG (snd s) \<or>
         VTERM_ATTR_FG (snd (foldl (\<lambda>s c. sgr_code c s) s m))
           = VTERM_ATTR_FG (snd s) OR VTERM_BRIGHT"
proof -
  have "(fst s \<longrightarrow> fst (foldl (\<lambda>s c. sgr_code c s) s m)) \<and>
        (VTERM_ATTR_FG (snd (foldl (\<lambda>s c. sgr_code c s) s m)) = VTERM_ATTR_FG (snd s) \<or>
         VTERM_ATTR_FG (snd (foldl (\<lambda>s c. sgr_code c s) s m))
           = VTERM_ATTR_FG (snd s) OR VTERM_BRIGHT)"
    using assms
  proof (induction m arbitrary: s)
    case Nil
    show ?case by simp
  next
    case (Cons c m)
    have c: "keeps_colour c" and m: "list_all keeps_colour m" using Cons.prems by simp_all
    note one = keeps_colour_step[OF c, of s]
    note rest = Cons.IH[OF m, of "sgr_code c s"]
    show ?case
      using one rest by (auto simp add: or_bright_twice)
  qed
  then show "fst s \<longrightarrow> fst (foldl (\<lambda>s c. sgr_code c s) s m)"
    and "VTERM_ATTR_FG (snd (foldl (\<lambda>s c. sgr_code c s) s m)) = VTERM_ATTR_FG (snd s) \<or>
         VTERM_ATTR_FG (snd (foldl (\<lambda>s c. sgr_code c s) s m))
           = VTERM_ATTR_FG (snd s) OR VTERM_BRIGHT"
    by simp_all
qed

text \<open>The foreground is colour \<open>k\<close>, bright or not; the foreground is bright colour \<open>k\<close>.\<close>

lemma stays_bright:
  assumes "list_all keeps_colour m"
    and "VTERM_ATTR_FG (snd s) = w OR VTERM_BRIGHT"
  shows "VTERM_ATTR_FG (snd (foldl (\<lambda>s c. sgr_code c s) s m)) = w OR VTERM_BRIGHT"
  using keeps_colour_tail(2)[OF assms(1), of s] assms(2) by (auto simp add: or_bright_twice)

lemma stays_coloured:
  assumes "list_all keeps_colour m"
    and "VTERM_ATTR_FG (snd s) OR VTERM_BRIGHT = w OR VTERM_BRIGHT"
  shows "VTERM_ATTR_FG (snd (foldl (\<lambda>s c. sgr_code c s) s m)) OR VTERM_BRIGHT = w OR VTERM_BRIGHT"
  using keeps_colour_tail(2)[OF assms(1), of s] assms(2) by (auto simp add: or_bright_twice)

lemma coloured:
  assumes "30 \<le> k" "k \<le> 37"
  shows "VTERM_ATTR_FG (snd (sgr_code k s)) OR VTERM_BRIGHT = word_of_int (k - 30) OR VTERM_BRIGHT"
  by (simp add: colour_step[OF assms] or_bright_twice)

lemma bold_then_colour:
  assumes k: "30 \<le> k" "k \<le> 37" and m: "list_all keeps_colour m1" "list_all keeps_colour m2"
  shows "VTERM_ATTR_FG (sgr_codes (pre @ [1] @ m1 @ [k] @ m2) a)
           = word_of_int (k - 30) OR VTERM_BRIGHT"
proof -
  let ?F = "foldl (\<lambda>s c. sgr_code c s)"
  let ?s1 = "sgr_code 1 (?F (False, a) pre)"
  let ?s2 = "?F ?s1 m1"
  let ?s3 = "sgr_code k ?s2"
  have "fst ?s2" using keeps_colour_tail(1)[OF m(1), of ?s1] by (simp add: bold_step)
  then have "VTERM_ATTR_FG (snd ?s3) = word_of_int (k - 30) OR VTERM_BRIGHT"
    by (simp add: colour_step[OF k])
  from stays_bright[OF m(2) this] show ?thesis
    by (simp add: sgr_codes_def)
qed

lemma colour_then_bold:
  assumes k: "30 \<le> k" "k \<le> 37" and m: "list_all keeps_colour m1" "list_all keeps_colour m2"
  shows "VTERM_ATTR_FG (sgr_codes (pre @ [k] @ m1 @ [1] @ m2) a)
           = word_of_int (k - 30) OR VTERM_BRIGHT"
proof -
  let ?F = "foldl (\<lambda>s c. sgr_code c s)"
  let ?s1 = "sgr_code k (?F (False, a) pre)"
  let ?s2 = "?F ?s1 m1"
  let ?s3 = "sgr_code 1 ?s2"
  have "VTERM_ATTR_FG (snd ?s2) OR VTERM_BRIGHT = word_of_int (k - 30) OR VTERM_BRIGHT"
    by (rule stays_coloured[OF m(1) coloured[OF k]])
  then have "VTERM_ATTR_FG (snd ?s3) = word_of_int (k - 30) OR VTERM_BRIGHT"
    by (simp add: bold_step)
  from stays_bright[OF m(2) this] show ?thesis
    by (simp add: sgr_codes_def)
qed

lemma colour_last:
  assumes k: "30 \<le> k" "k \<le> 37" and m: "list_all keeps_colour m1"
  shows "VTERM_ATTR_FG (sgr_codes (pre @ [k] @ m1) a) OR VTERM_BRIGHT
           = word_of_int (k - 30) OR VTERM_BRIGHT"
  using stays_coloured[OF m coloured[OF k], of "foldl (\<lambda>s c. sgr_code c s) (False, a) pre"]
  by (simp add: sgr_codes_def)

lemma bold_later:
  assumes m: "list_all keeps_colour m2" "list_all keeps_colour m3"
    and b: "VTERM_ATTR_FG b OR VTERM_BRIGHT = w OR VTERM_BRIGHT"
  shows "VTERM_ATTR_FG (sgr_codes (m2 @ [1] @ m3) b) = w OR VTERM_BRIGHT"
proof -
  let ?F = "foldl (\<lambda>s c. sgr_code c s)"
  let ?s2 = "?F (False, b) m2"
  have "VTERM_ATTR_FG (snd ?s2) OR VTERM_BRIGHT = w OR VTERM_BRIGHT"
    by (rule stays_coloured[OF m(1)]) (simp add: b)
  then have "VTERM_ATTR_FG (snd (sgr_code 1 ?s2)) = w OR VTERM_BRIGHT"
    by (simp add: bold_step)
  from stays_bright[OF m(2) this] show ?thesis
    by (simp add: sgr_codes_def)
qed

lemma colour_then_bold_later:
  assumes k: "30 \<le> k" "k \<le> 37"
    and m: "list_all keeps_colour m1" "list_all keeps_colour m2" "list_all keeps_colour m3"
  shows "VTERM_ATTR_FG (sgr_seqs [pre @ [k] @ m1, m2 @ [1] @ m3] a)
           = word_of_int (k - 30) OR VTERM_BRIGHT"
proof -
  have e: "sgr_seqs [pre @ [k] @ m1, m2 @ [1] @ m3] a
          = sgr_codes (m2 @ [1] @ m3) (sgr_codes (pre @ [k] @ m1) a)"
    by (simp add: sgr_seqs_def)
  show ?thesis
    unfolding e by (rule bold_later[OF m(2,3) colour_last[OF k m(1)]])
qed

lemma bold_then_colour_later:
  assumes k: "30 \<le> k" "k \<le> 37" and m: "list_all keeps_fg m2" "list_all keeps_fg m3"
  shows "VTERM_ATTR_FG (sgr_seqs [pre @ [1] @ m1, m2 @ [k] @ m3] a) = word_of_int (k - 30)"
  by (simp add: sgr_seqs_def sgr_codes_def keeps_fg_tail[OF m(2)] colour_step[OF k]
      keeps_fg_tail[OF m(1)])

text \<open>The SGR loop on a parameter string of decimal codes.\<close>

lemma parse_digits_stop:
  "rest = [] \<or> \<not> is_digit (hd rest) \<Longrightarrow> parse_digits v rest = (v, rest)"
  by (cases rest) auto

lemma parse_digits_dec_nat:
  "n \<le> 2147483647 \<Longrightarrow> parse_digits 0 (dec_nat n @ rest) = parse_digits (int n) rest"
proof (induction n arbitrary: rest rule: dec_nat.induct)
  case (1 n)
  show ?case
  proof (cases "n < 10")
    case True
    then show ?thesis
      by (subst dec_nat.simps) (simp add: digit_char_is_digit ord_digit_char wrap32_def)
  next
    case False
    let ?d = "digit_char (n mod 10)"
    have d: "is_digit ?d" "ord ?d = 48 + int (n mod 10)"
      by (simp_all add: digit_char_is_digit ord_digit_char)
    have small: "n div 10 \<le> 2147483647" using 1(2) by simp
    have n: "int (n div 10) * 10 + int (n mod 10) = int n"
      by (metis mult.commute of_nat_add of_nat_mult of_nat_numeral div_mult_mod_eq mult.commute)
    have w: "wrap32 (int n) = int n"
      using 1(2) by (simp add: wrap32_def)
    have "parse_digits 0 (dec_nat n @ rest) = parse_digits 0 (dec_nat (n div 10) @ ?d # rest)"
      using False by (subst dec_nat.simps) simp
    also have "\<dots> = parse_digits (int (n div 10)) (?d # rest)"
      by (rule 1(1)[OF False small])
    also have "\<dots> = parse_digits (int n) rest"
      using d n w by simp
    finally show ?thesis .
  qed
qed

lemma semicolon_no_digit: "\<not> is_digit (CHR '';'')"
  by (simp add: is_digit_def ord_def)

lemma parse_code:
  assumes "0 \<le> c" "c \<le> 2147483647"
  shows "sgr_parse_num (sgr_params (c # cs)) = (c, sgr_params cs)"
proof -
  have d: "dec_int c = dec_nat (nat c)" and n: "nat c \<le> 2147483647" "int (nat c) = c"
    using assms by (simp_all add: dec_int_def)
  show ?thesis
  proof (cases cs)
    case Nil
    have "parse_digits 0 (dec_nat (nat c) @ []) = (c, [])"
      unfolding parse_digits_dec_nat[OF n(1)] n(2) by (rule parse_digits_stop) simp
    then show ?thesis
      using Nil by (simp add: sgr_parse_num_def d skip_semi_def)
  next
    case (Cons e es)
    have "parse_digits 0 (dec_nat (nat c) @ CHR '';'' # sgr_params (e # es))
            = (c, CHR '';'' # sgr_params (e # es))"
      unfolding parse_digits_dec_nat[OF n(1)] n(2)
      by (rule parse_digits_stop) (simp add: semicolon_no_digit)
    then show ?thesis
      using Cons by (simp add: sgr_parse_num_def d skip_semi_def)
  qed
qed

lemma sgr_params_nonempty: "sgr_params (c # cs) \<noteq> []"
  by (cases cs) (simp_all add: dec_int_def dec_nat_nonempty)

lemma bright_or:
  assumes "30 \<le> k" "k \<le> 37"
  shows "(word_of_int ((k - 30) OR 8) :: 8 word) = word_of_int (k - 30) OR VTERM_BRIGHT"
  using colour_cases[OF assms] by (auto simp add: VTERM_BRIGHT_def)

lemma sgr_loop_code:
  assumes "0 \<le> c" "c \<le> 2147483647" "c \<noteq> 38" "c \<noteq> 48"
  shows "sgr_loop (sgr_params (c # cs)) (if b then 8 else 0) a
         = sgr_loop (sgr_params cs) (if fst (sgr_code c (b, a)) then 8 else 0)
             (snd (sgr_code c (b, a)))"
  using assms
  by (subst sgr_loop.simps)
     (auto simp add: parse_code sgr_params_nonempty sgr_code_def Let_def bright_or)

lemma sgr_loop_codes:
  assumes "list_all (\<lambda>c. 0 \<le> c \<and> c \<le> 2147483647 \<and> c \<noteq> 38 \<and> c \<noteq> 48) cs"
  shows "sgr_loop (sgr_params cs) (if b then 8 else 0) a
         = Some (snd (foldl (\<lambda>s c. sgr_code c s) (b, a) cs))"
  using assms
proof (induction cs arbitrary: b a)
  case Nil
  show ?case by (subst sgr_loop.simps) simp
next
  case (Cons c cs)
  have c: "0 \<le> c" "c \<le> 2147483647" "c \<noteq> 38" "c \<noteq> 48"
    and cs: "list_all (\<lambda>c. 0 \<le> c \<and> c \<le> 2147483647 \<and> c \<noteq> 38 \<and> c \<noteq> 48) cs"
    using Cons.prems by simp_all
  show ?case
    unfolding sgr_loop_code[OF c]
    using Cons.IH[OF cs, of "fst (sgr_code c (b, a))" "snd (sgr_code c (b, a))"]
    by simp
qed

text \<open>Runs of SGR sequences written to a terminal.\<close>

lemma sgr_done_simps [simp]:
  "cursor_x (sgr_done vt a) = cursor_x vt" "cursor_y (sgr_done vt a) = cursor_y vt"
  "current_attr (sgr_done vt a) = a" "escape_state (sgr_done vt a) = 0"
  "cells (sgr_done vt a) = cells vt"
  "cursor_ok (sgr_done vt a) = cursor_ok vt" "landing (sgr_done vt a) = landing vt"
  "sgr_done (sgr_done vt a) b = sgr_done vt b"
  by (simp_all add: sgr_done_def cursor_ok_def landing_def cell_index_def)

lemma div_row: "0 \<le> q \<Longrightarrow> q < 4736 \<Longrightarrow> q div 128 \<le> (36 :: int)"
  by simp

lemma type_after:
  assumes ok: "cursor_ok v" and idle: "escape_state v = 0" and pc: "printable c"
  shows "putchars v [c] = Some (typed v [c])"
    and "cells (typed v [c]) (landing v) = \<lparr>ch = c, attr = current_attr v\<rparr>"
    and "current_attr (typed v [c]) = current_attr v"
proof -
  show "putchars v [c] = Some (typed v [c])"
    using putchars_printable[OF ok idle, of "[c]"] pc by simp
  show "current_attr (typed v [c]) = current_attr v"
    by (simp add: typed_def Let_def)
  have b: "0 \<le> cursor_x v" "cursor_x v < 128" "0 \<le> cursor_y v" "cursor_y v < 37"
    using ok by (simp_all add: cursor_ok_def VTERM_COLS_def VTERM_ROWS_def)
  show "cells (typed v [c]) (landing v) = \<lparr>ch = c, attr = current_attr v\<rparr>"
  proof (cases "cursor_x v = 127 \<and> cursor_y v = 36")
    case True
    then have "scrolled (cell_index v) 1 = 1"
      by (simp add: scrolled_def cell_index_def VTERM_COLS_def VTERM_ROWS_def)
    then show ?thesis
      using True
      by (simp add: typed_def Let_def shown_def page_def landing_def cell_index_def GRID_def
          VTERM_COLS_def VTERM_ROWS_def)
  next
    case False
    then have "cursor_y v * 128 + cursor_x v + 1 < 4736" using b by linarith
    moreover have "0 \<le> cursor_y v * 128 + cursor_x v + 1" using b by simp
    ultimately have "(cursor_y v * 128 + cursor_x v + 1) div 128 \<le> 36"
      by (rule div_row[rotated])
    then have "scrolled (cell_index v) 1 = 0"
      by (simp add: scrolled_def cell_index_def VTERM_COLS_def VTERM_ROWS_def)
    then show ?thesis
      using False b
      by (auto simp add: typed_def Let_def shown_def page_def landing_def cell_index_def GRID_def
          VTERM_COLS_def VTERM_ROWS_def)
  qed
qed

lemma run_then_type:
  assumes run: "putchars vt s = Some v" and safe: "safe_run vt s"
    and ok: "cursor_ok v" and idle: "escape_state v = 0" and pc: "printable c"
  shows "cell_and_attr (putchars vt (s @ [c])) (landing v)
           = Some (\<lparr>ch = c, attr = current_attr v\<rparr>, current_attr v)"
    and "cell_and_attr (write_locked vt (s @ [c])) (landing v)
           = Some (\<lparr>ch = c, attr = current_attr v\<rparr>, current_attr v)"
proof -
  note ty = type_after[OF ok idle pc]
  have p: "putchars vt (s @ [c]) = Some (typed v [c])"
    by (simp add: putchars_append run ty(1) del: putchars.simps)
  have "safe_run vt (s @ [c])"
    using safe ok by (simp add: safe_run_append run split: option.splits)
  from write_locked_from_putchars[OF this p]
  have w: "write_locked vt (s @ [c]) = Some ((typed v [c])\<lparr>dirty := 1\<rparr>)" .
  show "cell_and_attr (putchars vt (s @ [c])) (landing v)
           = Some (\<lparr>ch = c, attr = current_attr v\<rparr>, current_attr v)"
    by (simp add: cell_and_attr_def p ty)
  show "cell_and_attr (write_locked vt (s @ [c])) (landing v)
           = Some (\<lparr>ch = c, attr = current_attr v\<rparr>, current_attr v)"
    by (simp add: cell_and_attr_def w ty)
qed

lemma two_runs:
  assumes "putchars vt s1 = Some v1" "safe_run vt s1" "putchars v1 s2 = Some v2" "safe_run v1 s2"
  shows "putchars vt (s1 @ s2) = Some v2" and "safe_run vt (s1 @ s2)"
  using assms by (simp_all add: putchars_append safe_run_append)

lemma reset_parses_zero:
  assumes "sgr_is_reset p" "p \<noteq> []"
  shows "fst (sgr_parse_num p) = 0"
proof -
  obtain rest where p: "p = CHR ''0'' # rest" and rest: "rest = [] \<or> hd rest = CHR '';''"
    using assms by (cases p; cases "tl p") (auto simp add: sgr_is_reset_def)
  have "rest = [] \<or> \<not> is_digit (hd rest)"
    using rest semicolon_no_digit by auto
  from parse_digits_stop[OF this, of 0] show ?thesis
    by (simp add: p sgr_parse_num_def is_digit_def ord_def wrap32_def)
qed

lemma dec_zero: "dec_int 0 = ''0''"
  by (simp add: dec_int_def dec_nat.simps digit_char_def)

lemma reset_params:
  "sgr_is_reset (sgr_params (0 # cs))"
  "skip_semi (skip_zero (sgr_params (0 # cs))) = sgr_params cs"
  by (cases cs; simp add: dec_zero sgr_is_reset_def skip_semi_def skip_zero_def)+

lemma apply_sgr_codes:
  assumes "list_all (\<lambda>c. 0 \<le> c \<and> c \<le> 2147483647 \<and> c \<noteq> 38 \<and> c \<noteq> 48) cs"
  shows "vterm_apply_sgr vt (sgr_params cs)
         = Some (vt\<lparr>current_attr := sgr_codes cs (current_attr vt)\<rparr>)"
proof (cases cs)
  case Nil
  have "sgr_loop [] 0 VTERM_DEFAULT_ATTR = Some VTERM_DEFAULT_ATTR"
    by (subst sgr_loop.simps) simp
  then show ?thesis
    using Nil
    by (simp add: vterm_apply_sgr_def sgr_is_reset_def skip_semi_def skip_zero_def sgr_codes_def)
next
  case (Cons c rest)
  have c: "0 \<le> c" "c \<le> 2147483647"
    and rest: "list_all (\<lambda>c. 0 \<le> c \<and> c \<le> 2147483647 \<and> c \<noteq> 38 \<and> c \<noteq> 48) rest"
    using assms Cons by simp_all
  show ?thesis
  proof (cases "c = 0")
    case True
    have "sgr_loop (sgr_params rest) 0 VTERM_DEFAULT_ATTR
            = Some (snd (foldl (\<lambda>s c. sgr_code c s) (False, VTERM_DEFAULT_ATTR) rest))"
      using sgr_loop_codes[OF rest, of False VTERM_DEFAULT_ATTR] by simp
    moreover have "sgr_code 0 (False, current_attr vt) = (False, VTERM_DEFAULT_ATTR)"
      by (simp add: sgr_code_def)
    ultimately show ?thesis
      using Cons True by (simp add: vterm_apply_sgr_def reset_params sgr_codes_def)
  next
    case False
    have "\<not> sgr_is_reset (sgr_params (c # rest))"
      using reset_parses_zero[OF _ sgr_params_nonempty, of c rest] parse_code[OF c, of rest] False
      by auto
    moreover have "sgr_loop (sgr_params cs) 0 (current_attr vt)
            = Some (snd (foldl (\<lambda>s c. sgr_code c s) (False, current_attr vt) cs))"
      using sgr_loop_codes[OF assms, of False "current_attr vt"] by simp
    ultimately show ?thesis
      using Cons by (simp add: vterm_apply_sgr_def sgr_codes_def)
  qed
qed

lemma sgr_params_chars:
  assumes "list_all (\<lambda>c. 0 \<le> c \<and> c \<le> 2147483647 \<and> c \<noteq> 38 \<and> c \<noteq> 48) cs"
  shows "\<forall>x\<in>set (sgr_params cs). \<not> is_alpha x \<and> x \<noteq> CHR 0x00"
    and "sgr_params cs = [] \<or> hd (sgr_params cs) \<noteq> CHR ''?''"
proof -
  have semi: "\<not> is_alpha (CHR '';'')" by (simp add: is_alpha_def ord_def)
  have dig: "\<forall>x\<in>set (dec_int c). is_digit x" if "0 \<le> c" for c
    using that dec_nat_digits[of "nat c"] by (simp add: dec_int_def)
  have nonneg: "\<forall>c\<in>set cs. 0 \<le> c"
    using assms by (simp add: list_all_iff)
  have "\<forall>x\<in>set (sgr_params cs). is_digit x \<or> x = CHR '';''"
    using nonneg by (induction cs rule: sgr_params.induct) (auto dest: dig)
  then show "\<forall>x\<in>set (sgr_params cs). \<not> is_alpha x \<and> x \<noteq> CHR 0x00"
    using semi digit_is_plain(1,2) by auto
  show "sgr_params cs = [] \<or> hd (sgr_params cs) \<noteq> CHR ''?''"
  proof (cases cs)
    case Nil
    then show ?thesis by simp
  next
    case (Cons c rest)
    then have c0: "0 \<le> c" using nonneg by simp
    have ne: "dec_int c \<noteq> []" using c0 by (simp add: dec_int_def dec_nat_nonempty)
    then have "hd (sgr_params cs) = hd (dec_int c)"
      using Cons by (cases rest) simp_all
    moreover have "is_digit (hd (dec_int c))"
      using dig[OF c0] ne by (cases "dec_int c") simp_all
    ultimately show ?thesis
      using digit_is_plain(6) by auto
  qed
qed

lemma sgr_seq_run:
  assumes idle: "escape_state vt = 0" and ok: "cursor_ok vt" and cs: "sgr_ok cs"
  shows "putchars vt (sgr (sgr_params cs)) = Some (sgr_done vt (sgr_codes cs (current_attr vt)))"
    and "safe_run vt (sgr (sgr_params cs))"
proof -
  let ?ps = "sgr_params cs"
  let ?c = "vt\<lparr>escape_state := 2, escape_buf := ?ps, dirty := 1\<rparr>"
  let ?a = "sgr_codes cs (current_attr vt)"
  have len: "length ?ps \<le> 30"
    and all: "list_all (\<lambda>c. 0 \<le> c \<and> c \<le> 2147483647 \<and> c \<noteq> 38 \<and> c \<noteq> 48) cs"
    using cs by (simp_all add: sgr_ok_def)
  note chars = sgr_params_chars[OF all]
  have m: "is_alpha (CHR ''m'')" by (simp add: is_alpha_def ord_def)
  have fin: "csi_final ?c (CHR ''m'') ?ps = Some (?c\<lparr>current_attr := ?a\<rparr>)"
    using apply_sgr_codes[OF all, of ?c] by (simp add: csi_final_def)
  have settled: "?c\<lparr>current_attr := ?a, escape_state := 0, escape_buf := [], dirty := 1\<rparr>
                 = sgr_done vt ?a"
    by (cases vt) (simp add: sgr_done_def)
  show "putchars vt (sgr ?ps) = Some (sgr_done vt ?a)"
    unfolding sgr_def csi_sequence[OF idle chars(1) len m chars(2)] fin using settled by simp
  show "safe_run vt (sgr ?ps)"
    unfolding sgr_def by (rule safe_csi_sequence[OF idle chars(1) len ok])
qed

lemma sgr_seqs_run:
  assumes "list_all sgr_ok seqs" "escape_state vt = 0" "cursor_ok vt"
  shows "\<exists>v. putchars vt (sgr_bytes seqs) = Some v \<and> safe_run vt (sgr_bytes seqs) \<and>
             cursor_x v = cursor_x vt \<and> cursor_y v = cursor_y vt \<and> escape_state v = 0 \<and>
             current_attr v = sgr_seqs seqs (current_attr vt)"
  using assms
proof (induction seqs arbitrary: vt)
  case Nil
  then show ?case by (simp add: sgr_bytes_def sgr_seqs_def)
next
  case (Cons cs seqs)
  have cs: "sgr_ok cs" and seqs: "list_all sgr_ok seqs" using Cons.prems(1) by simp_all
  let ?v1 = "sgr_done vt (sgr_codes cs (current_attr vt))"
  note one = sgr_seq_run[OF Cons.prems(2,3) cs]
  have "escape_state ?v1 = 0" "cursor_ok ?v1" using Cons.prems(3) by simp_all
  from Cons.IH[OF seqs this] obtain v where
    v: "putchars ?v1 (sgr_bytes seqs) = Some v" "safe_run ?v1 (sgr_bytes seqs)"
      "cursor_x v = cursor_x ?v1" "cursor_y v = cursor_y ?v1" "escape_state v = 0"
      "current_attr v = sgr_seqs seqs (current_attr ?v1)"
    by blast
  have bytes: "sgr_bytes (cs # seqs) = sgr (sgr_params cs) @ sgr_bytes seqs"
    by (simp add: sgr_bytes_def)
  note both = two_runs[OF one v(1,2)]
  have "current_attr v = sgr_seqs (cs # seqs) (current_attr vt)"
    using v(6) by (simp add: sgr_seqs_def)
  with both v(3,4,5) show ?case
    unfolding bytes by simp
qed

lemma sgr_then_type:
  assumes seqs: "list_all sgr_ok seqs" and idle: "escape_state vt = 0" and ok: "cursor_ok vt"
    and pc: "printable x"
  shows "cell_and_attr (write_locked vt (sgr_bytes seqs @ [x])) (landing vt)
           = Some (\<lparr>ch = x, attr = sgr_seqs seqs (current_attr vt)\<rparr>,
                   sgr_seqs seqs (current_attr vt))"
    and "cell_and_attr (putchars vt (sgr_bytes seqs @ [x])) (landing vt)
           = Some (\<lparr>ch = x, attr = sgr_seqs seqs (current_attr vt)\<rparr>,
                   sgr_seqs seqs (current_attr vt))"
proof -
  from sgr_seqs_run[OF seqs idle ok] obtain v where
    v: "putchars vt (sgr_bytes seqs) = Some v" "safe_run vt (sgr_bytes seqs)"
      "cursor_x v = cursor_x vt" "cursor_y v = cursor_y vt" "escape_state v = 0"
      "current_attr v = sgr_seqs seqs (current_attr vt)"
    by blast
  have okv: "cursor_ok v" using ok v(3,4) by (simp add: cursor_ok_def)
  have l: "landing v = landing vt" using v(3,4) by (simp add: landing_def cell_index_def)
  note t = run_then_type[OF v(1,2) okv v(5) pc]
  show "cell_and_attr (write_locked vt (sgr_bytes seqs @ [x])) (landing vt)
           = Some (\<lparr>ch = x, attr = sgr_seqs seqs (current_attr vt)\<rparr>,
                   sgr_seqs seqs (current_attr vt))"
    using t(2) by (simp only: l v(6))
  show "cell_and_attr (putchars vt (sgr_bytes seqs @ [x])) (landing vt)
           = Some (\<lparr>ch = x, attr = sgr_seqs seqs (current_attr vt)\<rparr>,
                   sgr_seqs seqs (current_attr vt))"
    using t(1) by (simp only: l v(6))
qed

lemma red_then_bold:
  "sgr_seqs [[31], [1]] VTERM_DEFAULT_ATTR = VTERM_ATTR (VTERM_RED OR VTERM_BRIGHT) VTERM_BLACK"
  by (simp add: sgr_seqs_def sgr_codes_def sgr_code_def Let_def VTERM_DEFAULT_ATTR_def
      VTERM_ATTR_def VTERM_ATTR_FG_def VTERM_ATTR_BG_def VTERM_WHITE_def VTERM_BLACK_def
      VTERM_RED_def VTERM_BRIGHT_def)

text \<open>
  C6. For a terminal with its cursor on the grid and its parser in the normal state, a
  run of SGR sequences with the codes \<open>seqs\<close> followed by one printable character gives
  the written cell, and the current attribute, the attribute \<open>sgr_seqs seqs\<close> of the
  attribute before: every code acts as the specification words it, code 1 setting the
  bright flag and putting the bright bit on the foreground and a code in 30 to 37
  setting the colour index together with the bright flag, and the flag is cleared at
  the start of every sequence (\<^verbatim>\<open>bright\<close> is a local of \<^verbatim>\<open>vterm_apply_sgr\<close>). The sequences
  are those whose parameters fit \<^verbatim>\<open>escape_buf\<close> and whose codes are numbers in the range
  of \<^verbatim>\<open>int\<close> other than 38 and 48. So for a colour code \<open>k\<close> in 30 to 37 and code 1, with
  no 0, no 22 and no other foreground code (30 to 37, 39, 90 to 97) between or after
  them, the foreground is the colour index with the bright bit when both stand in one
  sequence, in either order and after any codes \<open>pre\<close>, and when the colour stands in one
  sequence and code 1 in the next. When code 1 stands in one sequence and the colour in
  the next, with no further code 1 around the colour, the foreground is the plain
  colour index. A cell written after \<^verbatim>\<open>ESC [ 31 m\<close> and \<^verbatim>\<open>ESC [ 1 m\<close> from the default
  attribute is bright red on black.
\<close>

theorem C6_bright_flag_lasts_one_sgr_sequence:
  assumes "cursor_ok vt" "escape_state vt = 0" "printable x" "list_all sgr_ok seqs"
    and "30 \<le> k" "k \<le> 37"
    and "list_all keeps_colour m1" "list_all keeps_colour m2" "list_all keeps_colour m3"
    and "list_all keeps_fg n2" "list_all keeps_fg n3"
  shows "cell_and_attr (write_locked vt (sgr_bytes seqs @ [x])) (landing vt)
           = Some (\<lparr>ch = x, attr = sgr_seqs seqs (current_attr vt)\<rparr>,
                   sgr_seqs seqs (current_attr vt)) \<and>
         cell_and_attr (putchars vt (sgr_bytes seqs @ [x])) (landing vt)
           = Some (\<lparr>ch = x, attr = sgr_seqs seqs (current_attr vt)\<rparr>,
                   sgr_seqs seqs (current_attr vt)) \<and>
         VTERM_ATTR_FG (sgr_seqs [pre @ [1] @ m1 @ [k] @ m2] a)
           = word_of_int (k - 30) OR VTERM_BRIGHT \<and>
         VTERM_ATTR_FG (sgr_seqs [pre @ [k] @ m1 @ [1] @ m2] a)
           = word_of_int (k - 30) OR VTERM_BRIGHT \<and>
         VTERM_ATTR_FG (sgr_seqs [pre @ [k] @ m1, m2 @ [1] @ m3] a)
           = word_of_int (k - 30) OR VTERM_BRIGHT \<and>
         VTERM_ATTR_FG (sgr_seqs [pre @ [1] @ n1, n2 @ [k] @ n3] a) = word_of_int (k - 30) \<and>
         sgr_seqs [[31], [1]] VTERM_DEFAULT_ATTR
           = VTERM_ATTR (VTERM_RED OR VTERM_BRIGHT) VTERM_BLACK"
proof -
  note t = sgr_then_type[OF assms(4,2,1,3)]
  have one: "sgr_seqs [cs] a = sgr_codes cs a" for cs
    by (simp add: sgr_seqs_def)
  have a: "VTERM_ATTR_FG (sgr_seqs [pre @ [1] @ m1 @ [k] @ m2] a)
             = word_of_int (k - 30) OR VTERM_BRIGHT"
    unfolding one by (rule bold_then_colour[OF assms(5,6,7,8)])
  have b: "VTERM_ATTR_FG (sgr_seqs [pre @ [k] @ m1 @ [1] @ m2] a)
             = word_of_int (k - 30) OR VTERM_BRIGHT"
    unfolding one by (rule colour_then_bold[OF assms(5,6,7,8)])
  note c = colour_then_bold_later[OF assms(5,6,7,8,9), of pre a]
  note d = bold_then_colour_later[OF assms(5,6,10,11), of pre n1 a]
  show ?thesis
    by (intro conjI) (rule t a b c d red_then_bold)+
qed

theorem C6_witness:
  "cursor_ok fresh_vt \<and> escape_state fresh_vt = 0 \<and> printable (CHR ''X'') \<and>
   list_all sgr_ok [[31], [1]] \<and> (30 :: int) \<le> 31 \<and> (31 :: int) \<le> 37 \<and>
   list_all keeps_colour [44] \<and> list_all keeps_colour [1, 4] \<and> list_all keeps_colour [] \<and>
   list_all keeps_fg [4] \<and> list_all keeps_fg [] \<and>
   sgr_bytes [[31], [1]] = sgr ''31'' @ sgr ''1'' \<and> landing fresh_vt = 0 \<and>
   cell_and_attr (write_locked fresh_vt (sgr_bytes [[31], [1]] @ [CHR ''X''])) (landing fresh_vt)
     = Some (\<lparr>ch = CHR ''X'', attr = sgr_seqs [[31], [1]] (current_attr fresh_vt)\<rparr>,
             sgr_seqs [[31], [1]] (current_attr fresh_vt)) \<and>
   current_attr fresh_vt = VTERM_DEFAULT_ATTR \<and>
   sgr_seqs [[31], [1]] VTERM_DEFAULT_ATTR = VTERM_ATTR (VTERM_RED OR VTERM_BRIGHT) VTERM_BLACK \<and>
   VTERM_ATTR_FG (sgr_seqs [[0] @ [1] @ [44] @ [31] @ [1, 4]] VTERM_DEFAULT_ATTR)
     = word_of_int (31 - 30) OR VTERM_BRIGHT"
proof -
  have d: "dec_int 31 = ''31''" "dec_int 1 = ''1''"
    by (simp_all add: dec_int_def dec_nat.simps digit_char_def)
  have h3: "printable (CHR ''X'')" by (simp add: printable_def ord_def)
  have h4: "list_all sgr_ok [[31], [1]]" by (simp add: sgr_ok_def d)
  have h5: "(30 :: int) \<le> 31" and h6: "(31 :: int) \<le> 37" by simp_all
  have h7: "list_all keeps_colour [44]" and h8: "list_all keeps_colour [1, 4]"
    and h9: "list_all keeps_colour []"
    by (simp_all add: keeps_colour_def)
  have h10: "list_all keeps_fg [4]" and h11: "list_all keeps_fg []"
    by (simp_all add: keeps_fg_def keeps_colour_def)
  have b: "sgr_bytes [[31], [1]] = sgr ''31'' @ sgr ''1''"
    by (simp add: sgr_bytes_def d)
  have l: "landing fresh_vt = 0"
    by (simp add: landing_def cell_index_def fresh_vt_def VTERM_COLS_def VTERM_ROWS_def)
  have a: "current_attr fresh_vt = VTERM_DEFAULT_ATTR"
    by (simp add: fresh_vt_def)
  from C6_bright_flag_lasts_one_sgr_sequence[OF fresh_vt_ok h3 h4 h5 h6 h7 h8 h9 h10 h11,
      of "[0]" VTERM_DEFAULT_ATTR]
    fresh_vt_ok h3 h4 h5 h6 h7 h8 h9 h10 h11 b l a
  show ?thesis
    by blast
qed

text \<open>
  The claim C6 as stated covers code 1 in an earlier sequence of its own, and a colour
  followed by another foreground code: written to a cleared terminal, \<^verbatim>\<open>ESC [ 1 m\<close>,
  \<^verbatim>\<open>ESC [ 31 m\<close> and then \<open>X\<close> store \<open>X\<close> with plain red as its foreground, and
  \<^verbatim>\<open>ESC [ 31 m\<close>, \<^verbatim>\<open>ESC [ 39 m\<close>, \<^verbatim>\<open>ESC [ 1 m\<close> and then \<open>X\<close> store \<open>X\<close> with bright white, not
  bright red, as its foreground.
\<close>

theorem C6_counterexample:
  "cell_and_attr (write_locked fresh_vt (sgr ''1'' @ sgr ''31'' @ ''X'')) 0
     = Some (\<lparr>ch = CHR ''X'', attr = VTERM_ATTR VTERM_RED VTERM_BLACK\<rparr>, VTERM_ATTR VTERM_RED VTERM_BLACK) \<and>
   VTERM_ATTR_FG (VTERM_ATTR VTERM_RED VTERM_BLACK) = VTERM_RED \<and>
   VTERM_RED \<noteq> VTERM_RED OR VTERM_BRIGHT \<and>
   cell_and_attr (write_locked fresh_vt (sgr ''31'' @ sgr ''39'' @ sgr ''1'' @ ''X'')) 0
     = Some (\<lparr>ch = CHR ''X'', attr = VTERM_ATTR (VTERM_WHITE OR VTERM_BRIGHT) VTERM_BLACK\<rparr>,
             VTERM_ATTR (VTERM_WHITE OR VTERM_BRIGHT) VTERM_BLACK) \<and>
   VTERM_ATTR_FG (VTERM_ATTR (VTERM_WHITE OR VTERM_BRIGHT) VTERM_BLACK) = VTERM_WHITE OR VTERM_BRIGHT \<and>
   VTERM_WHITE OR VTERM_BRIGHT \<noteq> VTERM_RED OR VTERM_BRIGHT"
  by (simp add: sgr_def cell_and_attr_def run_defs VTERM_RED_def)


section \<open>Cursor position\<close>

lemma scan_int_dec_nat:
  assumes "rest = [] \<or> \<not> is_digit (hd rest)"
  shows "scan_int (dec_nat n @ rest) = Some (saturate (int n), rest)"
proof -
  obtain d ds where dd: "dec_nat n = d # ds"
    using dec_nat_nonempty[of n] by (cases "dec_nat n") auto
  have dig: "\<forall>c\<in>set (dec_nat n). is_digit c" by (rule dec_nat_digits)
  then have d: "is_digit d" using dd by simp
  have rest: "takeWhile is_digit rest = []" "dropWhile is_digit rest = rest"
    using assms by (cases rest; simp)+
  have tw: "takeWhile is_digit (dec_nat n @ rest) = dec_nat n"
    using dig rest by (simp add: takeWhile_append2)
  have dw: "dropWhile is_digit (dec_nat n @ rest) = rest"
    using dig rest by (simp add: dropWhile_append2)
  have sp: "dropWhile isspace (dec_nat n @ rest) = dec_nat n @ rest"
    using digit_is_plain(3)[OF d] by (simp add: dd)
  have sg: "split_sign (dec_nat n @ rest) = (False, dec_nat n @ rest)"
    using digit_is_plain(4,5)[OF d] by (simp add: dd split_sign_def)
  show ?thesis
    by (simp add: scan_int_def sp sg tw dw digits_val_dec_nat dec_nat_nonempty)
qed

lemma sscanf_row_col:
  "sscanf_d_d (dec_nat r @ '';'' @ dec_nat c) a b = (saturate (int r), saturate (int c))"
proof -
  have 1: "scan_int (dec_nat r @ '';'' @ dec_nat c) = Some (saturate (int r), '';'' @ dec_nat c)"
    by (rule scan_int_dec_nat) (simp add: is_digit_def ord_def)
  have 2: "scan_int (dec_nat c @ []) = Some (saturate (int c), [])"
    by (rule scan_int_dec_nat) simp
  show ?thesis
    using 1 2 by (simp add: sscanf_d_d_def)
qed

lemma moved_simps [simp]:
  "cursor_x (moved vt x y) = x" "cursor_y (moved vt x y) = y"
  "current_attr (moved vt x y) = current_attr vt" "escape_state (moved vt x y) = 0"
  "cells (moved vt x y) = cells vt"
  by (simp_all add: moved_def)

lemma cup_run:
  assumes idle: "escape_state vt = 0" and ok: "cursor_ok vt"
    and r: "1 \<le> r" "r \<le> 2147483647" and c: "1 \<le> c" "c \<le> 2147483647"
  shows "putchars vt (cup r c)
         = Some (moved vt (min (c - 1) (VTERM_COLS - 1)) (min (r - 1) (VTERM_ROWS - 1)))"
    and "safe_run vt (cup r c)"
proof -
  let ?ps = "dec_nat (nat r) @ CHR '';'' # dec_nat (nat c)"
  let ?c = "vt\<lparr>escape_state := 2, escape_buf := ?ps, dirty := 1\<rparr>"
  have dr: "dec_int r = dec_nat (nat r)" and dc: "dec_int c = dec_nat (nat c)"
    using r c by (simp_all add: dec_int_def)
  have shape: "cup r c = CHR 0x1B # CHR ''['' # ?ps @ [CHR ''H'']"
    by (simp add: cup_def dr dc)
  have digits: "\<forall>ch\<in>set ?ps. is_digit ch \<or> ch = CHR '';''"
    using dec_nat_digits by auto
  have semi: "\<not> is_alpha (CHR '';'') \<and> CHR '';'' \<noteq> CHR 0x00"
    by (simp add: is_alpha_def ord_def)
  have ps: "\<forall>ch\<in>set ?ps. \<not> is_alpha ch \<and> ch \<noteq> CHR 0x00"
  proof
    fix ch
    assume "ch \<in> set ?ps"
    with digits have "is_digit ch \<or> ch = CHR '';''" by blast
    then show "\<not> is_alpha ch \<and> ch \<noteq> CHR 0x00"
      using digit_is_plain(1,2) semi by blast
  qed
  have "nat r < 10 ^ 10" "nat c < 10 ^ 10"
    using r c by simp_all
  then have "length (dec_nat (nat r)) \<le> 10" "length (dec_nat (nat c)) \<le> 10"
    by (simp_all add: dec_nat_length)
  then have len: "length ?ps \<le> 30" by simp
  have h: "is_alpha (CHR ''H'')" by (simp add: is_alpha_def ord_def)
  obtain d ds where dd: "dec_nat (nat r) = d # ds"
    using dec_nat_nonempty[of "nat r"] by (cases "dec_nat (nat r)") auto
  have "is_digit d" using dec_nat_digits[of "nat r"] dd by simp
  then have q: "?ps = [] \<or> hd ?ps \<noteq> CHR ''?''"
    using digit_is_plain(6) by (simp add: dd)
  have ne: "?ps \<noteq> []" by (simp add: dd)
  have sat: "saturate r = r" "saturate c = c"
    using r c by (simp_all add: saturate_def INT_MAX_def INT_MIN_def)
  have scan: "sscanf_d_d ?ps 1 1 = (r, c)"
    using sscanf_row_col[of "nat r" "nat c" 1 1] r c sat by simp
  have one: "?ps = ''1;1'' \<Longrightarrow> r = 1 \<and> c = 1"
  proof -
    assume a: "?ps = ''1;1''"
    have "sscanf_d_d ''1;1'' 1 1 = (1, 1)"
      by (simp add: sscanf_d_d_def scan_int_def split_sign_def isspace_def is_digit_def ord_def
          saturate_def INT_MAX_def INT_MIN_def)
    with scan a show ?thesis by simp
  qed
  have fin: "csi_final ?c (CHR ''H'') ?ps
             = Some (?c\<lparr>cursor_x := min (c - 1) (VTERM_COLS - 1), cursor_y := min (r - 1) (VTERM_ROWS - 1)\<rparr>)"
  proof (cases "?ps = ''1;1''")
    case True
    with one have "r = 1" "c = 1" by simp_all
    then show ?thesis
      using True by (simp add: csi_final_def VTERM_COLS_def VTERM_ROWS_def)
  next
    case False
    then show ?thesis
      using ne r c
      by (cases vt) (simp add: csi_final_def scan Let_def min_def VTERM_COLS_def VTERM_ROWS_def)
  qed
  have settled: "?c\<lparr>cursor_x := min (c - 1) (VTERM_COLS - 1), cursor_y := min (r - 1) (VTERM_ROWS - 1),
                    escape_state := 0, escape_buf := [], dirty := 1\<rparr>
                 = moved vt (min (c - 1) (VTERM_COLS - 1)) (min (r - 1) (VTERM_ROWS - 1))"
    by (cases vt) (simp add: moved_def)
  show "putchars vt (cup r c)
         = Some (moved vt (min (c - 1) (VTERM_COLS - 1)) (min (r - 1) (VTERM_ROWS - 1)))"
    unfolding shape csi_sequence[OF idle ps len h q] fin using settled by simp
  show "safe_run vt (cup r c)"
    unfolding shape by (rule safe_csi_sequence[OF idle ps len ok])
qed

lemma landing_moved:
  "1 \<le> r \<Longrightarrow> 1 \<le> c \<Longrightarrow>
   landing (moved vt (min (c - 1) (VTERM_COLS - 1)) (min (r - 1) (VTERM_ROWS - 1))) = cup_cell r c"
  by (simp add: landing_def cup_cell_def cell_index_def Let_def algebra_simps)

lemma cup_then_type:
  assumes "cursor_ok vt" "escape_state vt = 0"
    and "1 \<le> r" "r \<le> 2147483647" and "1 \<le> c" "c \<le> 2147483647" and "printable x"
  shows "cell_and_attr (write_locked vt (cup r c @ [x])) (cup_cell r c)
           = Some (\<lparr>ch = x, attr = current_attr vt\<rparr>, current_attr vt)"
    and "cell_and_attr (putchars vt (cup r c @ [x])) (cup_cell r c)
           = Some (\<lparr>ch = x, attr = current_attr vt\<rparr>, current_attr vt)"
proof -
  let ?v = "moved vt (min (c - 1) (VTERM_COLS - 1)) (min (r - 1) (VTERM_ROWS - 1))"
  note run = cup_run[OF assms(2,1,3,4,5,6)]
  have ok: "cursor_ok ?v"
    using assms(3,5) by (simp add: cursor_ok_def min_def VTERM_COLS_def VTERM_ROWS_def)
  have idle: "escape_state ?v = 0" by simp
  note both = run_then_type[OF run ok idle assms(7)]
  show "cell_and_attr (write_locked vt (cup r c @ [x])) (cup_cell r c)
           = Some (\<lparr>ch = x, attr = current_attr vt\<rparr>, current_attr vt)"
    using both(2) by (simp add: landing_moved[OF assms(3,5)])
  show "cell_and_attr (putchars vt (cup r c @ [x])) (cup_cell r c)
           = Some (\<lparr>ch = x, attr = current_attr vt\<rparr>, current_attr vt)"
    using both(1) by (simp add: landing_moved[OF assms(3,5)])
qed

text \<open>
  C7. For a terminal with its cursor on the grid and its parser in the normal state,
  and for \<open>r\<close> and \<open>c\<close> from 1 to 2147483647, the sequence \<^verbatim>\<open>ESC [ r ; c H\<close> followed by a
  printable character leaves that character, with the current attribute, in the cell
  \<open>cup_cell r c\<close>: column \<open>c - 1\<close> of row \<open>r - 1\<close>, clamped into the grid, and one row
  higher when that cell is the bottom-right one, since a write there scrolls the grid
  at once.
\<close>

theorem C7_cursor_position_then_write:
  assumes "cursor_ok vt" "escape_state vt = 0"
    and "1 \<le> r" "r \<le> 2147483647" and "1 \<le> c" "c \<le> 2147483647" and "printable x"
  shows "cell_and_attr (write_locked vt (cup r c @ [x])) (cup_cell r c)
           = Some (\<lparr>ch = x, attr = current_attr vt\<rparr>, current_attr vt) \<and>
         cell_and_attr (putchars vt (cup r c @ [x])) (cup_cell r c)
           = Some (\<lparr>ch = x, attr = current_attr vt\<rparr>, current_attr vt)"
  using cup_then_type[OF assms] by simp

theorem C7_witness:
  "cursor_ok fresh_vt \<and> escape_state fresh_vt = 0 \<and>
   (1 :: int) \<le> 2 \<and> (2 :: int) \<le> 2147483647 \<and> (1 :: int) \<le> 3 \<and> (3 :: int) \<le> 2147483647 \<and>
   printable (CHR ''X'') \<and> cup_cell 2 3 = 1 * VTERM_COLS + 2 \<and>
   cell_and_attr (write_locked fresh_vt (cup 2 3 @ [CHR ''X''])) (cup_cell 2 3)
     = Some (\<lparr>ch = CHR ''X'', attr = current_attr fresh_vt\<rparr>, current_attr fresh_vt) \<and>
   cell_and_attr (putchars fresh_vt (cup 2 3 @ [CHR ''X''])) (cup_cell 2 3)
     = Some (\<lparr>ch = CHR ''X'', attr = current_attr fresh_vt\<rparr>, current_attr fresh_vt)"
proof -
  have r: "(1 :: int) \<le> 2" "(2 :: int) \<le> 2147483647" by simp_all
  have c: "(1 :: int) \<le> 3" "(3 :: int) \<le> 2147483647" by simp_all
  have x: "printable (CHR ''X'')" by (simp add: printable_def ord_def)
  have cell: "cup_cell 2 3 = 1 * VTERM_COLS + 2"
    by (simp add: cup_cell_def VTERM_COLS_def VTERM_ROWS_def)
  from C7_cursor_position_then_write[OF fresh_vt_ok r c x] fresh_vt_ok r c x cell
  show ?thesis
    by blast
qed

text \<open>
  The claim C7 as stated covers the bottom-right cell. After \<^verbatim>\<open>ESC [ 37 ; 128 H\<close> and
  \<open>X\<close>, written to a cleared terminal, the cell in column 127 of row 36 is blank and
  the \<open>X\<close> is in row 35.
\<close>

theorem C7_counterexample_bottom_right:
  "cell_and_attr (write_locked fresh_vt (cup 37 128 @ ''X'')) ((37 - 1) * VTERM_COLS + (128 - 1))
     = Some (blank_cell, VTERM_DEFAULT_ATTR) \<and>
   cell_and_attr (write_locked fresh_vt (cup 37 128 @ ''X'')) ((36 - 1) * VTERM_COLS + (128 - 1))
     = Some (\<lparr>ch = CHR ''X'', attr = VTERM_DEFAULT_ATTR\<rparr>, VTERM_DEFAULT_ATTR)"
  by (simp add: cup_def dec_int_def dec_nat.simps digit_char_def cell_and_attr_def run_defs
      sscanf_d_d_def vterm_scroll_def fill_range_def move_cells_def)

section \<open>Switching terminals\<close>

text \<open>The pool invariant determines where each terminal's \<^verbatim>\<open>cells\<close> pointer points.\<close>

lemma four: "n < 4 \<Longrightarrow> [0, 1, 2, 3 :: nat] ! n = n"
  by (cases n; cases "n - 1"; cases "n - 2"; cases "n - 3") auto

lemma pool_length: "pool_ok sys \<Longrightarrow> length (s_vterms sys) = 4"
proof -
  assume "pool_ok sys"
  then have "length (map cells_at (s_vterms sys)) = 4"
    by (simp add: pool_ok_def)
  then show ?thesis by simp
qed

lemma pool_ptr:
  assumes "pool_ok sys" "n < 4"
  shows "cells_at (s_vterms sys ! n) = (if int n = s_active_vt sys then IRAM else STORAGE)"
proof -
  let ?f = "\<lambda>k. if int k = s_active_vt sys then IRAM else STORAGE"
  have "map cells_at (s_vterms sys) ! n = map ?f [0, 1, 2, 3] ! n"
    using assms(1) by (simp add: pool_ok_def)
  moreover have "map ?f [0, 1, 2, 3] ! n = ?f n"
  proof -
    have "n < length [0, 1, 2, 3 :: nat]" using assms(2) by simp
    from nth_map[OF this] show ?thesis by (simp only: four[OF assms(2)])
  qed
  ultimately show ?thesis
    using assms(2) pool_length[OF assms(1)] by simp
qed

lemma copy_grid_back: "copy_grid a (copy_grid b a) = a"
  by (auto simp: copy_grid_def fun_eq_iff)

lemma copy_grid_round: "copy_grid (copy_grid a b) (copy_grid c a) = a"
  by (auto simp: copy_grid_def fun_eq_iff)

lemma switch_unfold:
  assumes "valid_vt j" "j \<noteq> s_active_vt sys"
  shows "vterm_switch sys j =
     sys\<lparr>s_iram_buffer := copy_grid (s_iram_buffer sys)
                              (storage_cells (((s_vterms sys)[nat (s_active_vt sys) :=
                                 (s_vterms sys ! nat (s_active_vt sys))
                                   \<lparr>storage_cells := copy_grid (storage_cells (s_vterms sys ! nat (s_active_vt sys))) (s_iram_buffer sys),
                                    cells_at := STORAGE\<rparr>]) ! nat j)),
         s_vterms := ((s_vterms sys)[nat (s_active_vt sys) :=
                         (s_vterms sys ! nat (s_active_vt sys))
                           \<lparr>storage_cells := copy_grid (storage_cells (s_vterms sys ! nat (s_active_vt sys))) (s_iram_buffer sys),
                            cells_at := STORAGE\<rparr>])
                      [nat j := (((s_vterms sys)[nat (s_active_vt sys) :=
                         (s_vterms sys ! nat (s_active_vt sys))
                           \<lparr>storage_cells := copy_grid (storage_cells (s_vterms sys ! nat (s_active_vt sys))) (s_iram_buffer sys),
                            cells_at := STORAGE\<rparr>]) ! nat j)\<lparr>cells_at := IRAM\<rparr>],
         s_active_vt := j,
         switch_calls := switch_calls sys @ (if s_on_switch_cb sys then [j] else [])\<rparr>"
  using assms by (cases sys) (simp add: vterm_switch_def Let_def valid_vt_def)


lemma switch_fields:
  assumes "valid_vt j" "j \<noteq> s_active_vt sys" "valid_vt (s_active_vt sys)"
    and "length (s_vterms sys) = 4"
  shows "s_iram_buffer (vterm_switch sys j)
           = copy_grid (s_iram_buffer sys) (storage_cells (s_vterms sys ! nat j))"
    and "s_vterms (vterm_switch sys j)
           = (s_vterms sys)[nat (s_active_vt sys) :=
                (s_vterms sys ! nat (s_active_vt sys))
                  \<lparr>storage_cells := copy_grid (storage_cells (s_vterms sys ! nat (s_active_vt sys)))
                                               (s_iram_buffer sys),
                   cells_at := STORAGE\<rparr>,
              nat j := (s_vterms sys ! nat j)\<lparr>cells_at := IRAM\<rparr>]"
    and "s_active_vt (vterm_switch sys j) = j"
    and "switch_calls (vterm_switch sys j)
           = switch_calls sys @ (if s_on_switch_cb sys then [j] else [])"
    and "s_on_switch_cb (vterm_switch sys j) = s_on_switch_cb sys"
    and "s_on_render_cb (vterm_switch sys j) = s_on_render_cb sys"
    and "render_calls (vterm_switch sys j) = render_calls sys"
    and "s_esc_buf (vterm_switch sys j) = s_esc_buf sys"
    and "s_esc_start (vterm_switch sys j) = s_esc_start sys"
    and "length (s_vterms (vterm_switch sys j)) = 4"
proof -
  have ne: "nat (s_active_vt sys) \<noteq> nat j"
    using assms(1-3) by (auto simp add: valid_vt_def)
  show "s_iram_buffer (vterm_switch sys j)
           = copy_grid (s_iram_buffer sys) (storage_cells (s_vterms sys ! nat j))"
    unfolding switch_unfold[OF assms(1,2)] using ne by simp
  show "s_vterms (vterm_switch sys j)
           = (s_vterms sys)[nat (s_active_vt sys) :=
                (s_vterms sys ! nat (s_active_vt sys))
                  \<lparr>storage_cells := copy_grid (storage_cells (s_vterms sys ! nat (s_active_vt sys)))
                                               (s_iram_buffer sys),
                   cells_at := STORAGE\<rparr>,
              nat j := (s_vterms sys ! nat j)\<lparr>cells_at := IRAM\<rparr>]"
    unfolding switch_unfold[OF assms(1,2)] using ne by simp
  show "s_active_vt (vterm_switch sys j) = j"
    unfolding switch_unfold[OF assms(1,2)] by simp
  show "switch_calls (vterm_switch sys j)
           = switch_calls sys @ (if s_on_switch_cb sys then [j] else [])"
    unfolding switch_unfold[OF assms(1,2)] by simp
  show "s_on_switch_cb (vterm_switch sys j) = s_on_switch_cb sys"
    unfolding switch_unfold[OF assms(1,2)] by simp
  show "s_on_render_cb (vterm_switch sys j) = s_on_render_cb sys"
    unfolding switch_unfold[OF assms(1,2)] by simp
  show "render_calls (vterm_switch sys j) = render_calls sys"
    unfolding switch_unfold[OF assms(1,2)] by simp
  show "s_esc_buf (vterm_switch sys j) = s_esc_buf sys"
    unfolding switch_unfold[OF assms(1,2)] by simp
  show "s_esc_start (vterm_switch sys j) = s_esc_start sys"
    unfolding switch_unfold[OF assms(1,2)] by simp
  show "length (s_vterms (vterm_switch sys j)) = 4"
    unfolding switch_unfold[OF assms(1,2)] using assms(4) by simp
qed

lemma round_trip:
  assumes ok: "pool_ok sys" and j: "valid_vt j" "j \<noteq> s_active_vt sys"
  shows "vterm_switch (vterm_switch sys j) (s_active_vt sys)
         = stash sys (copy_grid (storage_cells (s_vterms sys ! nat (s_active_vt sys)))
                                (s_iram_buffer sys))
             (switch_calls sys @ (if s_on_switch_cb sys then [j, s_active_vt sys] else []))"
proof -
  let ?i = "s_active_vt sys"
  let ?a = "nat ?i" and ?b = "nat j"
  let ?vts = "s_vterms sys"
  let ?s1 = "vterm_switch sys j"
  let ?X = "copy_grid (storage_cells (?vts ! ?a)) (s_iram_buffer sys)"
  have vi: "valid_vt ?i"
    using ok by (simp add: pool_ok_def valid_vt_def)
  have len: "length ?vts = 4"
    by (rule pool_length[OF ok])
  have a: "?a < 4" and b: "?b < 4" and ne: "?a \<noteq> ?b"
    using vi j by (auto simp add: valid_vt_def VTERM_COUNT_def)
  have ia: "int ?a = ?i" and jb: "int ?b \<noteq> ?i"
    using vi j by (auto simp add: valid_vt_def)
  have pa: "cells_at (?vts ! ?a) = IRAM"
    using pool_ptr[OF ok a] ia by simp
  have pb: "cells_at (?vts ! ?b) = STORAGE"
    using pool_ptr[OF ok b] jb by simp
  note f1 = switch_fields[OF j vi len]
  have j1: "valid_vt ?i" "?i \<noteq> s_active_vt ?s1" "valid_vt (s_active_vt ?s1)"
    using vi j by (simp_all add: f1(3))
  note f2 = switch_fields[OF j1 f1(10)]
  have B: "(?vts ! ?b)\<lparr>cells_at := IRAM\<rparr>
             \<lparr>storage_cells := copy_grid (storage_cells (?vts ! ?b))
                                 (copy_grid (s_iram_buffer sys) (storage_cells (?vts ! ?b))),
              cells_at := STORAGE\<rparr> = ?vts ! ?b"
    using pb by (cases "?vts ! ?b") (simp add: copy_grid_back)
  have A: "(?vts ! ?a)\<lparr>storage_cells := ?X, cells_at := STORAGE\<rparr>\<lparr>cells_at := IRAM\<rparr>
             = (?vts ! ?a)\<lparr>storage_cells := ?X\<rparr>"
    using pa by (cases "?vts ! ?a") simp
  have upd: "?vts[?a := u, ?b := ?vts ! ?b, ?a := w] = ?vts[?a := w]" for u w
  proof -
    have "?vts[?a := u, ?b := ?vts ! ?b] = ?vts[?a := u, ?b := ?vts[?a := u] ! ?b]"
      using ne by simp
    also have "\<dots> = ?vts[?a := u]"
      by (rule list_update_id)
    finally show ?thesis by simp
  qed
  have vts: "s_vterms (vterm_switch ?s1 ?i) = ?vts[?a := (?vts ! ?a)\<lparr>storage_cells := ?X\<rparr>]"
    unfolding f2(2) f1(1,2,3) using ne a b len by (simp add: B A upd)
  have iram: "s_iram_buffer (vterm_switch ?s1 ?i) = s_iram_buffer sys"
    unfolding f2(1) f1(1,2) using ne a b len by (simp add: copy_grid_round)
  have calls: "switch_calls (vterm_switch ?s1 ?i)
                 = switch_calls sys @ (if s_on_switch_cb sys then [j, ?i] else [])"
    unfolding f2(4) f1(4,5) by simp
  show ?thesis
    by (rule vtsys.equality)
       (simp_all add: stash_def vts iram calls f2(3,5,6,7,8,9) f1(5,6,7,8,9))
qed


lemma pool_active:
  assumes "pool_ok sys"
  shows "nat (s_active_vt sys) < length (s_vterms sys)"
    and "cells_at (s_vterms sys ! nat (s_active_vt sys)) = IRAM"
    and "valid_vt (s_active_vt sys)"
proof -
  have a: "nat (s_active_vt sys) < 4" and ia: "int (nat (s_active_vt sys)) = s_active_vt sys"
    using assms by (auto simp add: pool_ok_def VTERM_COUNT_def)
  show "nat (s_active_vt sys) < length (s_vterms sys)"
    using a pool_length[OF assms] by simp
  show "cells_at (s_vterms sys ! nat (s_active_vt sys)) = IRAM"
    using pool_ptr[OF assms a] ia by simp
  show "valid_vt (s_active_vt sys)"
    using assms by (simp add: pool_ok_def valid_vt_def)
qed

lemma pool_other:
  assumes "pool_ok sys" "valid_vt k" "k \<noteq> s_active_vt sys"
  shows "cells_at (s_vterms sys ! nat k) = STORAGE" and "nat k \<noteq> nat (s_active_vt sys)"
proof -
  have b: "nat k < 4" and kb: "int (nat k) \<noteq> s_active_vt sys"
    using assms(2,3) by (auto simp add: valid_vt_def VTERM_COUNT_def)
  show "cells_at (s_vterms sys ! nat k) = STORAGE"
    using pool_ptr[OF assms(1) b] kb by simp
  show "nat k \<noteq> nat (s_active_vt sys)"
    using assms(2,3) pool_active(3)[OF assms(1)] by (auto simp add: valid_vt_def)
qed

lemma stash_frame:
  "s_active_vt (stash sys x c) = s_active_vt sys"
  "s_iram_buffer (stash sys x c) = s_iram_buffer sys"
  "length (s_vterms (stash sys x c)) = length (s_vterms sys)"
  by (simp_all add: stash_def)

lemma stash_queues:
  "map input_queue (s_vterms (stash sys x c)) = map input_queue (s_vterms sys)"
proof -
  have "map input_queue ((s_vterms sys)[nat (s_active_vt sys) :=
          (\<lambda>t. t\<lparr>storage_cells := x\<rparr>) (s_vterms sys ! nat (s_active_vt sys))])
        = map input_queue (s_vterms sys)"
    by (rule map_update_same) simp
  then show ?thesis by (simp add: stash_def)
qed

lemma stash_ptrs:
  "map cells_at (s_vterms (stash sys x c)) = map cells_at (s_vterms sys)"
proof -
  have "map cells_at ((s_vterms sys)[nat (s_active_vt sys) :=
          (\<lambda>t. t\<lparr>storage_cells := x\<rparr>) (s_vterms sys ! nat (s_active_vt sys))])
        = map cells_at (s_vterms sys)"
    by (rule map_update_same) simp
  then show ?thesis by (simp add: stash_def)
qed

lemma stash_ok: "pool_ok sys \<Longrightarrow> pool_ok (stash sys x c)"
  by (simp add: pool_ok_def stash_ptrs stash_frame)

lemma stash_load:
  assumes "pool_ok sys"
  shows "load_vt (stash sys x c) k = load_vt sys k"
proof (cases "nat k = nat (s_active_vt sys)")
  case True
  then show ?thesis
    using pool_active(1,2)[OF assms]
    by (simp add: load_vt_def stash_def deref_cells_def Let_def)
next
  case False
  then show ?thesis
    by (simp add: load_vt_def stash_def deref_cells_def Let_def split: cells_ptr.split)
qed

lemma stash_view: "pool_ok sys \<Longrightarrow> pool_view (stash sys x c) = pool_view sys"
  by (simp add: pool_view_def stash_load stash_queues stash_frame)

lemma send_stash:
  assumes "nat (s_active_vt s) < length (s_vterms s)"
  shows "vterm_send_input (stash s x c) (s_active_vt s) b
         = stash (vterm_send_input s (s_active_vt s) b) x c"
  using assms
  by (cases "s_vterms s ! nat (s_active_vt s)"; cases s)
     (simp add: vterm_send_input_def stash_def Let_def)

lemma sends_stash:
  assumes "nat (s_active_vt s) < length (s_vterms s)"
  shows "foldl (\<lambda>s c. vterm_send_input s (s_active_vt s) c) (stash s x c) bs
         = stash (foldl (\<lambda>s c. vterm_send_input s (s_active_vt s) c) s bs) x c"
  using assms
proof (induction bs arbitrary: s)
  case Nil
  show ?case by simp
next
  case (Cons b bs)
  have "nat (s_active_vt (vterm_send_input s (s_active_vt s) b))
          < length (s_vterms (vterm_send_input s (s_active_vt s) b))"
    using Cons.prems by (simp add: send_input_frame(3,9))
  from Cons.IH[OF this] show ?case
    by (simp add: stash_frame send_stash[OF Cons.prems])
qed


lemma send_input_ptrs:
  "map cells_at (s_vterms (vterm_send_input sys k b)) = map cells_at (s_vterms sys)"
proof (cases "valid_vt k")
  case True
  have "map cells_at ((s_vterms sys)[nat k :=
          (\<lambda>t. t\<lparr>input_queue := xQueueSend (input_queue t) b\<rparr>) (s_vterms sys ! nat k)])
        = map cells_at (s_vterms sys)"
    by (rule map_update_same) simp
  then show ?thesis using True by (simp add: vterm_send_input_def Let_def)
next
  case False
  then show ?thesis by (simp add: vterm_send_input_def)
qed

lemma sends_ptrs:
  "map cells_at (s_vterms (foldl (\<lambda>s c. vterm_send_input s (s_active_vt s) c) sys bs))
     = map cells_at (s_vterms sys)"
  by (induction bs arbitrary: sys) (simp_all add: send_input_ptrs)

lemma sends_active:
  "s_active_vt (foldl (\<lambda>s c. vterm_send_input s (s_active_vt s) c) sys bs) = s_active_vt sys"
  by (induction bs arbitrary: sys) (simp_all add: send_input_frame(3))

lemma store_ok:
  assumes "pool_ok sys"
  shows "pool_ok (store_vt sys k w)"
proof -
  let ?g = "\<lambda>t. t\<lparr>cursor_x := cursor_x w, cursor_y := cursor_y w, current_attr := current_attr w,
                escape_state := escape_state w, escape_buf := escape_buf w, dirty := dirty w\<rparr>"
  let ?h = "\<lambda>t. (?g t)\<lparr>storage_cells := cells w\<rparr>"
  have g: "map cells_at ((s_vterms sys)[nat k := ?g (s_vterms sys ! nat k)])
             = map cells_at (s_vterms sys)"
    by (rule map_update_same) simp
  have h: "map cells_at ((s_vterms sys)[nat k := ?h (s_vterms sys ! nat k)])
             = map cells_at (s_vterms sys)"
    by (rule map_update_same) simp
  show ?thesis
    using assms g h
    by (simp add: pool_ok_def store_vt_def Let_def sends_ptrs sends_active
        split: cells_ptr.split)
qed

lemma store_stash:
  assumes ok: "pool_ok sys" and k: "valid_vt k"
  shows "store_vt (stash sys x c) k w = stash (store_vt sys k w) x c"
proof -
  let ?f = "\<lambda>s c. vterm_send_input s (s_active_vt s) c"
  let ?g = "\<lambda>t. t\<lparr>cursor_x := cursor_x w, cursor_y := cursor_y w, current_attr := current_attr w,
                escape_state := escape_state w, escape_buf := escape_buf w, dirty := dirty w\<rparr>"
  let ?pre = "\<lambda>s. case cells_at (s_vterms s ! nat k) of
                IRAM \<Rightarrow> s\<lparr>s_iram_buffer := cells w,
                          s_vterms := (s_vterms s)[nat k := ?g (s_vterms s ! nat k)]\<rparr>
              | STORAGE \<Rightarrow> s\<lparr>s_vterms := (s_vterms s)[nat k :=
                                (?g (s_vterms s ! nat k))\<lparr>storage_cells := cells w\<rparr>]\<rparr>"
  have unf: "store_vt s k w = foldl ?f (?pre s) (sent w)" for s
    by (simp add: store_vt_def Let_def)
  have pre: "?pre (stash sys x c) = stash (?pre sys) x c"
  proof (cases "k = s_active_vt sys")
    case True
    then show ?thesis
      using pool_active(1,2)[OF ok]
      by (cases "s_vterms sys ! nat (s_active_vt sys)"; cases sys) (simp add: stash_def)
  next
    case False
    note o = pool_other[OF ok k False]
    have swap: "(s_vterms sys)[nat (s_active_vt sys) := u, nat k := v]
                  = (s_vterms sys)[nat k := v, nat (s_active_vt sys) := u]" for u v
      using o(2) by (simp add: list_update_swap)
    show ?thesis
      using o by (simp add: stash_def swap)
  qed
  have len: "nat (s_active_vt (?pre sys)) < length (s_vterms (?pre sys))"
    using pool_active(1)[OF ok] by (simp split: cells_ptr.split)
  show ?thesis
    unfolding unf pre by (rule sends_stash[OF len])
qed

lemma write_stash:
  assumes ok: "pool_ok sys"
  shows "vterm_write (stash sys x c) k d = map_option (\<lambda>s. stash s x c) (vterm_write sys k d)"
proof (cases "valid_vt k")
  case True
  have "store_vt (stash sys x c) k = (\<lambda>w. stash (store_vt sys k w) x c)"
    by (rule ext) (rule store_stash[OF ok True])
  with True show ?thesis
    by (simp add: vterm_write_def valid_vt_def stash_load[OF ok] option.map_comp comp_def)
next
  case False
  then show ?thesis
    by (auto simp add: vterm_write_def valid_vt_def)
qed

lemma putchar_stash:
  assumes ok: "pool_ok sys"
  shows "vterm_putchar (stash sys x c) k b
         = map_option (\<lambda>s. stash s x c) (vterm_putchar sys k b)"
proof (cases "valid_vt k")
  case True
  have "store_vt (stash sys x c) k = (\<lambda>w. stash (store_vt sys k w) x c)"
    by (rule ext) (rule store_stash[OF ok True])
  with True show ?thesis
    by (simp add: vterm_putchar_def valid_vt_def stash_load[OF ok] option.map_comp comp_def)
next
  case False
  then show ?thesis
    by (auto simp add: vterm_putchar_def valid_vt_def)
qed

lemma write_ok:
  "pool_ok sys \<Longrightarrow> vterm_write sys k d = Some s \<Longrightarrow> pool_ok s"
  by (auto simp add: vterm_write_def store_ok split: if_splits)

lemma putchar_ok:
  "pool_ok sys \<Longrightarrow> vterm_putchar sys k b = Some s \<Longrightarrow> pool_ok s"
  by (auto simp add: vterm_putchar_def store_ok split: if_splits)

lemma write_stash_view:
  assumes ok: "pool_ok sys"
  shows "map_option pool_view (vterm_write (stash sys x c) k d)
         = map_option pool_view (vterm_write sys k d)"
proof (cases "vterm_write sys k d")
  case None
  then show ?thesis by (simp add: write_stash[OF ok])
next
  case (Some s)
  then show ?thesis
    by (simp add: write_stash[OF ok] stash_view[OF write_ok[OF ok Some]])
qed

lemma putchar_stash_view:
  assumes ok: "pool_ok sys"
  shows "map_option pool_view (vterm_putchar (stash sys x c) k b)
         = map_option pool_view (vterm_putchar sys k b)"
proof (cases "vterm_putchar sys k b")
  case None
  then show ?thesis by (simp add: putchar_stash[OF ok])
next
  case (Some s)
  then show ?thesis
    by (simp add: putchar_stash[OF ok] stash_view[OF putchar_ok[OF ok Some]])
qed


lemma switch_noop:
  "\<not> (valid_vt j \<and> j \<noteq> s_active_vt sys) \<Longrightarrow> vterm_switch sys j = sys"
  by (auto simp add: vterm_switch_def valid_vt_def)

lemma switch_ok:
  assumes ok: "pool_ok sys"
  shows "pool_ok (vterm_switch sys j)"
proof (cases "valid_vt j \<and> j \<noteq> s_active_vt sys")
  case False
  then show ?thesis using ok by (simp add: switch_noop)
next
  case True
  then have j: "valid_vt j" "j \<noteq> s_active_vt sys" by simp_all
  let ?s1 = "vterm_switch sys j"
  note f = switch_fields[OF j pool_active(3)[OF ok] pool_length[OF ok]]
  note o = pool_other[OF ok j]
  have ia: "int (nat (s_active_vt sys)) = s_active_vt sys" and jb: "int (nat j) = j"
    using pool_active(3)[OF ok] j(1) by (simp_all add: valid_vt_def)
  have "map cells_at (s_vterms ?s1) = map (\<lambda>k. if int k = j then IRAM else STORAGE) [0, 1, 2, 3]"
  proof (rule nth_equalityI)
    show "length (map cells_at (s_vterms ?s1))
            = length (map (\<lambda>k. if int k = j then IRAM else STORAGE) [0, 1, 2, 3])"
      by (simp add: f(10))
  next
    fix n
    assume "n < length (map cells_at (s_vterms ?s1))"
    then have n: "n < 4" by (simp add: f(10))
    have r: "map (\<lambda>k. if int k = j then IRAM else STORAGE) [0, 1, 2, 3] ! n
               = (if int n = j then IRAM else STORAGE)"
    proof -
      have "n < length [0, 1, 2, 3 :: nat]" using n by simp
      from nth_map[OF this] show ?thesis by (simp only: four[OF n])
    qed
    have l: "map cells_at (s_vterms ?s1) ! n = cells_at (s_vterms ?s1 ! n)"
      using n by (simp add: f(10))
    consider "n = nat j" | "n = nat (s_active_vt sys)" "n \<noteq> nat j"
      | "n \<noteq> nat (s_active_vt sys)" "n \<noteq> nat j"
      by blast
    then have "cells_at (s_vterms ?s1 ! n) = (if int n = j then IRAM else STORAGE)"
    proof cases
      case 1
      then show ?thesis
        using n jb pool_length[OF ok] by (simp add: f(2))
    next
      case 2
      then show ?thesis
        using n ia j(2) pool_length[OF ok] by (auto simp add: f(2))
    next
      case 3
      have "int n \<noteq> j" using 3(2) jb by auto
      moreover have "int n \<noteq> s_active_vt sys" using 3(1) ia by auto
      ultimately show ?thesis
        using 3 pool_ptr[OF ok n] by (simp add: f(2))
    qed
    then show "map cells_at (s_vterms ?s1) ! n
                 = map (\<lambda>k. if int k = j then IRAM else STORAGE) [0, 1, 2, 3] ! n"
      by (simp only: l r)
  qed
  then show ?thesis
    using j(1) by (simp add: pool_ok_def f(3) valid_vt_def)
qed

lemma init_ok: "pool_ok (vterm_init mem)"
  by (simp add: pool_ok_def vterm_init_def blank_session_def VTERM_COUNT_def)

text \<open>
  C2. In a pool that satisfies the pool invariant, let \<open>i\<close> be the active terminal and
  \<open>j\<close> any terminal number. After \<^verbatim>\<open>vterm_switch(j)\<close> followed by \<^verbatim>\<open>vterm_switch(i)\<close>
  every terminal, \<open>i\<close> and \<open>j\<close> among them, shows the cells, cursor, attribute and parser
  state it showed before, the input queues and the active index are the same, and
  the pool invariant holds again; a following \<^verbatim>\<open>vterm_write\<close> or \<^verbatim>\<open>vterm_putchar\<close> to any
  terminal returns exactly when it returns without the round trip, and leaves the pool
  showing the same. The invariant holds after \<^verbatim>\<open>vterm_init\<close> and is kept by switches and
  writes (\<open>init_ok\<close>, \<open>switch_ok\<close>, \<open>write_ok\<close>, \<open>putchar_ok\<close>), so it holds after any writes
  that precede the round trip.
\<close>

theorem C2_switch_round_trip_is_lossless:
  assumes "pool_ok sys" and "s_active_vt sys = i"
  shows "pool_view (vterm_switch (vterm_switch sys j) i) = pool_view sys \<and>
         pool_ok (vterm_switch (vterm_switch sys j) i) \<and>
         map_option pool_view (vterm_write (vterm_switch (vterm_switch sys j) i) k data)
           = map_option pool_view (vterm_write sys k data) \<and>
         map_option pool_view (vterm_putchar (vterm_switch (vterm_switch sys j) i) k c)
           = map_option pool_view (vterm_putchar sys k c)"
proof (cases "valid_vt j \<and> j \<noteq> s_active_vt sys")
  case False
  have "vterm_switch (vterm_switch sys j) i = sys"
    using assms(2) by (simp add: switch_noop[OF False] switch_noop)
  then show ?thesis using assms(1) by simp
next
  case True
  then have j: "valid_vt j" "j \<noteq> s_active_vt sys" by simp_all
  show ?thesis
    unfolding assms(2)[symmetric] round_trip[OF assms(1) j]
    using assms(1)
    by (simp add: stash_view stash_ok write_stash_view putchar_stash_view)
qed

theorem C2_witness:
  "pool_ok (vterm_init blank_mem) \<and> s_active_vt (vterm_init blank_mem) = 0 \<and>
   pool_view (vterm_switch (vterm_switch (vterm_init blank_mem) 1) 0)
     = pool_view (vterm_init blank_mem) \<and>
   map_option pool_view
       (vterm_write (vterm_switch (vterm_switch (vterm_init blank_mem) 1) 0) 0 ''A'')
     = map_option pool_view (vterm_write (vterm_init blank_mem) 0 ''A'')"
proof -
  have ok: "pool_ok (vterm_init blank_mem)"
    by (simp add: pool_ok_def vterm_init_def blank_session_def VTERM_COUNT_def)
  have act: "s_active_vt (vterm_init blank_mem) = 0"
    by (simp add: vterm_init_def)
  show ?thesis
    using C2_switch_round_trip_is_lossless[OF ok act, of 1 0 "''A''"] ok act by blast
qed

end
